theory Spec2Isabelle
  imports Complex_Main "HOL-Library.Multiset"
begin

section \<open>Data model (src/engine.py)\<close>

text \<open>
  Python floats (prices, latencies) are modelled by \<open>real\<close>: the code only negates,
  compares and adds them, and uses them as dictionary keys. NaN and the infinities are
  outside the model. Python integers are \<open>int\<close>, strings are \<open>string\<close>.

  Order objects are mutable and shared: the same object sits in a price level's deque,
  in the side's \<open>orders\<close> dictionary and in the caller's hands. They live in an
  explicit store, a function from references to order values, and the containers hold
  references.
\<close>

type_synonym ref = nat

text \<open>\<open>class Order\<close>; the field \<open>id\<close> is named \<open>oid\<close> here.\<close>

record Order =
  oid :: int
  side :: string
  price :: real
  qty :: int
  timestamp :: int
  filled_qty :: int
  status :: string

text \<open>The dataclass constructor with its defaults \<open>filled_qty = 0\<close>, \<open>status = 'OPEN'\<close>.\<close>

definition mk_Order :: "int \<Rightarrow> string \<Rightarrow> real \<Rightarrow> int \<Rightarrow> int \<Rightarrow> Order" where
  "mk_Order i s p q ts =
     \<lparr>oid = i, side = s, price = p, qty = q, timestamp = ts, filled_qty = 0, status = ''OPEN''\<rparr>"

definition open_qty :: "Order \<Rightarrow> int" where
  "open_qty ord = qty ord - filled_qty ord"

record Trade =
  trade_price :: real
  trade_qty :: int
  maker_order_id :: int
  taker_order_id :: int

datatype error = IndexError

type_synonym store = "ref \<Rightarrow> Order"

section \<open>One side of the book (class OrderBookSide)\<close>

text \<open>
  \<open>price_heap\<close> is a \<open>heapq\<close> list. The library is modelled by what it guarantees:
  the list is kept in ascending order, so that \<open>heap[0]\<close> is the head, \<open>heappush\<close> is a
  sorted insertion and \<open>heappop\<close> drops the head. \<open>price_levels\<close> is a
  \<open>defaultdict(deque)\<close>: a map from price to the queue of references, where reading a
  missing key yields an empty deque and stores it.
\<close>

record OrderBookSide =
  is_bid :: bool
  price_heap :: "real list"
  price_levels :: "real \<rightharpoonup> ref list"
  orders :: "int \<rightharpoonup> ref"

definition OrderBookSide_init :: "bool \<Rightarrow> OrderBookSide" where
  "OrderBookSide_init b =
     \<lparr>is_bid = b, price_heap = [], price_levels = Map.empty, orders = Map.empty\<rparr>"

definition heappush :: "real list \<Rightarrow> real \<Rightarrow> real list" where
  "heappush h x = insort x h"

definition heappop :: "real list \<Rightarrow> real list" where
  "heappop h = tl h"

text \<open>The value read by \<open>price_levels[p]\<close>, and the dictionary after that read.\<close>

definition level :: "(real \<rightharpoonup> ref list) \<Rightarrow> real \<Rightarrow> ref list" where
  "level L p = (case L p of None \<Rightarrow> [] | Some q \<Rightarrow> q)"

definition touch :: "(real \<rightharpoonup> ref list) \<Rightarrow> real \<Rightarrow> (real \<rightharpoonup> ref list)" where
  "touch L p = (case L p of None \<Rightarrow> L(p \<mapsto> []) | Some q \<Rightarrow> L)"

text \<open>\<open>heap_price = -order.price if self.is_bid else order.price\<close>, and its inverse.\<close>

definition signed_price :: "bool \<Rightarrow> real \<Rightarrow> real" where
  "signed_price b p = (if b then - p else p)"

definition side_add :: "store \<Rightarrow> ref \<Rightarrow> OrderBookSide \<Rightarrow> OrderBookSide" where
  "side_add st r S =
     (let ord = st r;
          h = (if price_levels S (price ord) = None
               then heappush (price_heap S) (signed_price (is_bid S) (price ord))
               else price_heap S)
      in S\<lparr>price_heap := h,
           price_levels := (price_levels S)(price ord \<mapsto> level (price_levels S) (price ord) @ [r]),
           orders := (orders S)(oid ord \<mapsto> r)\<rparr>)"

definition best_price :: "OrderBookSide \<Rightarrow> real option" where
  "best_price S =
     (case price_heap S of [] \<Rightarrow> None | x # _ \<Rightarrow> Some (signed_price (is_bid S) x))"

text \<open>
  The loop of \<open>get_queue_position\<close>: walk the deque, stop at the first order carrying the
  target's id, add up the open quantities passed on the way.
\<close>

fun qty_ahead_loop :: "store \<Rightarrow> int \<Rightarrow> int \<Rightarrow> ref list \<Rightarrow> int" where
  "qty_ahead_loop st target_id qty_ahead [] = qty_ahead"
| "qty_ahead_loop st target_id qty_ahead (r # rs) =
     (if oid (st r) = target_id then qty_ahead
      else qty_ahead_loop st target_id (qty_ahead + open_qty (st r)) rs)"

text \<open>
  \<open>get_queue_position\<close> returns \<open>-1\<close> for an id missing from \<open>self.orders\<close>. Otherwise it
  reads \<open>self.price_levels[target_order.price]\<close>, which stores an empty deque when the
  level is gone, so the side is returned with the result.
\<close>

definition get_queue_position :: "store \<Rightarrow> OrderBookSide \<Rightarrow> int \<Rightarrow> int \<times> OrderBookSide" where
  "get_queue_position st S order_id =
     (case orders S order_id of
        None \<Rightarrow> (- 1, S)
      | Some r \<Rightarrow>
          (let target_order = st r;
               queue = level (price_levels S) (price target_order)
           in (qty_ahead_loop st (oid target_order) 0 queue,
               S\<lparr>price_levels := touch (price_levels S) (price target_order)\<rparr>)))"

text \<open>
  \<open>remove_filled_levels\<close>: while the heap is non-empty and the level of its head is empty,
  pop the head and delete the level.
\<close>

function drop_empty :: "bool \<Rightarrow> real list \<Rightarrow> (real \<rightharpoonup> ref list) \<Rightarrow> real list \<times> (real \<rightharpoonup> ref list)" where
  "drop_empty b [] L = ([], L)"
| "drop_empty b (raw_price # h) L =
     (let real_price = signed_price b raw_price
      in if level L real_price = [] then drop_empty b (heappop (raw_price # h)) (L(real_price := None))
         else (raw_price # h, L))"
  by pat_completeness auto
termination
  by (relation "measure (\<lambda>(b, h, L). length h)") (auto simp: heappop_def)

definition remove_filled_levels :: "OrderBookSide \<Rightarrow> OrderBookSide" where
  "remove_filled_levels S =
     (let (h, L) = drop_empty (is_bid S) (price_heap S) (price_levels S)
      in S\<lparr>price_heap := h, price_levels := L\<rparr>)"

section \<open>The matching engine (class MatchingEngine)\<close>

record MatchingEngine =
  bids :: OrderBookSide
  asks :: OrderBookSide
  trades :: "Trade list"

definition MatchingEngine_init :: MatchingEngine where
  "MatchingEngine_init =
     \<lparr>bids = OrderBookSide_init True, asks = OrderBookSide_init False, trades = []\<rparr>"

text \<open>
  \<open>_execute_trade\<close>, statement by statement: the two \<open>filled_qty\<close> increments, the two
  status updates, the appended trade.
\<close>

definition add_filled :: "ref \<Rightarrow> int \<Rightarrow> store \<Rightarrow> store" where
  "add_filled r n st = st(r := (st r)\<lparr>filled_qty := filled_qty (st r) + n\<rparr>)"

definition set_status :: "ref \<Rightarrow> store \<Rightarrow> store" where
  "set_status r st =
     st(r := (st r)\<lparr>status := (if open_qty (st r) = 0 then ''FILLED'' else ''PARTIAL'')\<rparr>)"

definition execute_trade ::
  "ref \<Rightarrow> ref \<Rightarrow> int \<Rightarrow> real \<Rightarrow> store \<times> Trade list \<Rightarrow> store \<times> Trade list" where
  "execute_trade maker taker n p = (\<lambda>(st, tr).
     (let st1 = add_filled maker n st;
          st2 = add_filled taker n st1;
          st3 = set_status maker st2;
          st4 = set_status taker st3
      in (st4, tr @ [\<lparr>trade_price = p, trade_qty = n,
                      maker_order_id = oid (st4 maker), taker_order_id = oid (st4 taker)\<rparr>])))"

text \<open>
  One pass through the body of the \<open>while\<close> loop of \<open>process_order\<close>, on the store, the
  opposing side and the trade log: the loop stops, raises (\<open>best_queue[0]\<close> on an empty
  deque), or goes on with a new state.
\<close>

type_synonym match_state = "store \<times> OrderBookSide \<times> Trade list"

datatype step_result = Break | Raise error | Continue match_state

definition is_match :: "Order \<Rightarrow> real \<Rightarrow> bool" where
  "is_match ord bp \<longleftrightarrow>
     (side ord = ''buy'' \<and> price ord \<ge> bp) \<or> (side ord = ''sell'' \<and> price ord \<le> bp)"

definition match_step :: "ref \<Rightarrow> match_state \<Rightarrow> step_result" where
  "match_step taker = (\<lambda>(st, opposing_book, tr).
     if \<not> open_qty (st taker) > 0 then Break
     else (case best_price opposing_book of
       None \<Rightarrow> Break
     | Some bp \<Rightarrow>
         if \<not> is_match (st taker) bp then Break
         else (case level (price_levels opposing_book) bp of
           [] \<Rightarrow> Raise IndexError
         | maker # best_queue \<Rightarrow>
             (let match_qty = min (open_qty (st taker)) (open_qty (st maker));
                  (st', tr') = execute_trade maker taker match_qty bp (st, tr)
              in if open_qty (st' maker) = 0
                 then Continue (st',
                        remove_filled_levels
                          (opposing_book\<lparr>price_levels := (price_levels opposing_book)(bp \<mapsto> best_queue)\<rparr>),
                        tr')
                 else Continue (st', opposing_book, tr')))))"

subsection \<open>The matching loop terminates\<close>

text \<open>
  Every pass either fills the taker or pops one order off the best level, so the number
  of queued references reachable from the heap, counted twice, plus one while the taker
  is open, goes down.
\<close>

definition queue_total :: "bool \<Rightarrow> real list \<Rightarrow> (real \<rightharpoonup> ref list) \<Rightarrow> nat" where
  "queue_total b h L = sum_list (map (\<lambda>x. length (level L (signed_price b x))) h)"

definition match_measure :: "ref \<Rightarrow> match_state \<Rightarrow> nat" where
  "match_measure taker = (\<lambda>(st, ob, tr).
     2 * queue_total (is_bid ob) (price_heap ob) (price_levels ob)
     + (if open_qty (st taker) > 0 then 1 else 0))"

lemma queue_total_mono:
  "(\<And>p. length (level L' p) \<le> length (level L p)) \<Longrightarrow> queue_total b h L' \<le> queue_total b h L"
  unfolding queue_total_def by (induction h) (auto intro: add_mono)

lemma level_delete_le: "length (level (L(p := None)) x) \<le> length (level L x)"
  by (simp add: level_def)

lemma drop_empty_total:
  "drop_empty b h L = (h', L') \<Longrightarrow> queue_total b h' L' \<le> queue_total b h L"
proof (induction b h L arbitrary: h' L' rule: drop_empty.induct)
  case (1 b L)
  then show ?case by simp
next
  case (2 b raw_price h L)
  show ?case
  proof (cases "level L (signed_price b raw_price) = []")
    case True
    with "2.prems" have d: "drop_empty b (heappop (raw_price # h)) (L(signed_price b raw_price := None)) = (h', L')"
      by simp
    have "queue_total b h' L' \<le> queue_total b (heappop (raw_price # h)) (L(signed_price b raw_price := None))"
      by (rule "2.IH" [OF refl True d])
    also have "\<dots> = queue_total b h (L(signed_price b raw_price := None))"
      by (simp add: heappop_def)
    also have "\<dots> \<le> queue_total b h L"
      by (rule queue_total_mono) (rule level_delete_le)
    also have "\<dots> \<le> queue_total b (raw_price # h) L"
      by (simp add: queue_total_def)
    finally show ?thesis .
  next
    case False
    with "2.prems" show ?thesis by simp
  qed
qed

lemma queue_total_pop:
  assumes "level L (signed_price b x) = m # rest"
  shows "queue_total b (x # h) (L(signed_price b x \<mapsto> rest)) < queue_total b (x # h) L"
proof -
  have "queue_total b h (L(signed_price b x \<mapsto> rest)) \<le> queue_total b h L"
    by (rule queue_total_mono) (use assms in \<open>auto simp: level_def\<close>)
  moreover have "length (level (L(signed_price b x \<mapsto> rest)) (signed_price b x)) < length (level L (signed_price b x))"
    using assms by (simp add: level_def)
  ultimately show ?thesis by (simp add: queue_total_def)
qed

lemma signed_price_twice [simp]: "signed_price b (signed_price b p) = p"
  by (simp add: signed_price_def)

lemma execute_trade_open_taker:
  "execute_trade maker taker n p (st, tr) = (st', tr') \<Longrightarrow>
   open_qty (st' taker) = (if maker = taker then open_qty (st taker) - 2 * n else open_qty (st taker) - n)"
  by (auto simp: execute_trade_def Let_def add_filled_def set_status_def open_qty_def)

lemma execute_trade_open_maker:
  "execute_trade maker taker n p (st, tr) = (st', tr') \<Longrightarrow>
   open_qty (st' maker) = (if maker = taker then open_qty (st maker) - 2 * n else open_qty (st maker) - n)"
  by (auto simp: execute_trade_def Let_def add_filled_def set_status_def open_qty_def)

lemma match_step_decreases:
  assumes "match_step taker s = Continue s'"
  shows "match_measure taker s' < match_measure taker s"
proof -
  obtain st ob tr where s: "s = (st, ob, tr)" by (cases s) auto
  from assms s have pos: "open_qty (st taker) > 0"
    by (auto simp: match_step_def split: if_splits)
  from assms s pos obtain x h where heap: "price_heap ob = x # h"
    by (auto simp: match_step_def best_price_def split: list.splits)
  let ?bp = "signed_price (is_bid ob) x"
  from assms s pos heap obtain maker best_queue where q: "level (price_levels ob) ?bp = maker # best_queue"
    by (auto simp: match_step_def best_price_def split: if_splits list.splits)
  let ?n = "min (open_qty (st taker)) (open_qty (st maker))"
  obtain st' tr' where ex: "execute_trade maker taker ?n ?bp (st, tr) = (st', tr')"
    by (cases "execute_trade maker taker ?n ?bp (st, tr)") auto
  note ot = execute_trade_open_taker [OF ex] and om = execute_trade_open_maker [OF ex]
  show ?thesis
  proof (cases "open_qty (st' maker) = 0")
    case True
    let ?ob1 = "ob\<lparr>price_levels := (price_levels ob)(?bp \<mapsto> best_queue)\<rparr>"
    from assms s pos heap q ex True have s': "s' = (st', remove_filled_levels ?ob1, tr')"
      by (auto simp: match_step_def best_price_def split: if_splits)
    obtain h' L' where de: "drop_empty (is_bid ob) (x # h) ((price_levels ob)(?bp \<mapsto> best_queue)) = (h', L')"
      by (cases "drop_empty (is_bid ob) (x # h) ((price_levels ob)(?bp \<mapsto> best_queue))") auto
    have "queue_total (is_bid ob) h' L' \<le> queue_total (is_bid ob) (x # h) ((price_levels ob)(?bp \<mapsto> best_queue))"
      by (rule drop_empty_total [OF de])
    also have "\<dots> < queue_total (is_bid ob) (x # h) (price_levels ob)"
      using q by (simp add: queue_total_pop)
    finally have "queue_total (is_bid ob) h' L' < queue_total (is_bid ob) (x # h) (price_levels ob)" .
    then show ?thesis
      using s s' pos heap de by (simp add: match_measure_def remove_filled_levels_def)
  next
    case False
    from assms s pos heap q ex False have s': "s' = (st', ob, tr')"
      by (auto simp: match_step_def best_price_def split: if_splits)
    have "\<not> open_qty (st' taker) > 0"
      using ot om False pos by (auto simp: min_def split: if_splits)
    then show ?thesis
      using s s' pos by (simp add: match_measure_def)
  qed
qed

text \<open>The \<open>while order.open_qty > 0\<close> loop.\<close>

function match_loop :: "ref \<Rightarrow> match_state \<Rightarrow> error + match_state" where
  "match_loop taker s =
     (case match_step taker s of
        Break \<Rightarrow> Inr s
      | Raise e \<Rightarrow> Inl e
      | Continue s' \<Rightarrow> match_loop taker s')"
  by pat_completeness auto
termination
  by (relation "measure (\<lambda>(taker, s). match_measure taker s)") (auto simp: match_step_decreases)


text \<open>
  The world: the store of order objects with its allocation pointer, and the engine.
  \<open>process_order\<close> receives the reference of the incoming order.
\<close>

record world =
  store :: store
  next_ref :: ref
  engine :: MatchingEngine

definition world_init :: world where
  "world_init = \<lparr>store = (\<lambda>r. mk_Order 0 [] 0 0 0), next_ref = 0, engine = MatchingEngine_init\<rparr>"

definition opposing_book :: "Order \<Rightarrow> MatchingEngine \<Rightarrow> OrderBookSide" where
  "opposing_book ord eng = (if side ord = ''sell'' then bids eng else asks eng)"

definition my_book :: "Order \<Rightarrow> MatchingEngine \<Rightarrow> OrderBookSide" where
  "my_book ord eng = (if side ord = ''sell'' then asks eng else bids eng)"

definition process_order :: "ref \<Rightarrow> world \<Rightarrow> error + (string \<times> world)" where
  "process_order r w =
     (let ord = store w r;
          eng = engine w
      in case match_loop r (store w, opposing_book ord eng, trades eng) of
           Inl e \<Rightarrow> Inl e
         | Inr (st', ob', tr') \<Rightarrow>
             (let eng1 = (if side ord = ''sell'' then eng\<lparr>bids := ob', trades := tr'\<rparr>
                          else eng\<lparr>asks := ob', trades := tr'\<rparr>)
              in if open_qty (st' r) > 0
                 then Inr (''RESTING'',
                        w\<lparr>store := st',
                          engine := (if side ord = ''sell''
                                     then eng1\<lparr>asks := side_add st' r (my_book ord eng1)\<rparr>
                                     else eng1\<lparr>bids := side_add st' r (my_book ord eng1)\<rparr>)\<rparr>)
                 else Inr (''FILLED'', w\<lparr>store := st', engine := eng1\<rparr>)))"

text \<open>
  A caller builds a new \<open>Order\<close> object and hands it to \<open>process_order\<close>, as the
  demo of engine.py and \<open>apply_market_event\<close> do.
\<close>

definition new_Order :: "Order \<Rightarrow> world \<Rightarrow> ref \<times> world" where
  "new_Order ord w = (next_ref w, w\<lparr>store := (store w)(next_ref w := ord), next_ref := Suc (next_ref w)\<rparr>)"

definition process_new_order :: "Order \<Rightarrow> world \<Rightarrow> error + (string \<times> world)" where
  "process_new_order ord w = (let (r, w1) = new_Order ord w in process_order r w1)"

declare match_loop.simps [simp del]

section \<open>The demo scenario of engine.py\<close>

text \<open>
  The \<open>__main__\<close> block of engine.py: three sell orders, the queue position of order 2,
  then the aggressive buy. It yields the queue position, the status string returned for
  the buy and the final world.
\<close>

definition engine_demo :: "error + (int \<times> string \<times> world)" where
  "engine_demo =
     (case process_new_order (mk_Order 1 ''sell'' 101 100 1000) world_init of
        Inl e \<Rightarrow> Inl e
      | Inr (s1, w1) \<Rightarrow>
     (case process_new_order (mk_Order 2 ''sell'' 101 50 1001) w1 of
        Inl e \<Rightarrow> Inl e
      | Inr (s2, w2) \<Rightarrow>
     (case process_new_order (mk_Order 3 ''sell'' 102 200 1002) w2 of
        Inl e \<Rightarrow> Inl e
      | Inr (s3, w3) \<Rightarrow>
     (let (qty_ahead, asks') = get_queue_position (store w3) (asks (engine w3)) 2;
          w4 = w3\<lparr>engine := (engine w3)\<lparr>asks := asks'\<rparr>\<rparr>
      in case process_new_order (mk_Order 99 ''buy'' 101.5 120 2000) w4 of
           Inl e \<Rightarrow> Inl e
         | Inr (final_status, w5) \<Rightarrow> Inr (qty_ahead, final_status, w5)))))"

section \<open>Replay of market data (src/replayer.py)\<close>

text \<open>
  \<open>class MarketEvent\<close>; the fields \<open>timestamp\<close>, \<open>side\<close>, \<open>price\<close> and \<open>qty\<close> carry
  the prefix \<open>me_\<close>. \<open>apply_market_event\<close> builds the order of an ADD with the \<open>Order\<close>
  class of engine.py (replayer.py names \<open>Order\<close> and \<open>MatchingEngine\<close> without importing
  them) and ignores the value \<open>process_order\<close> returns. A TRADE event, and
  any other event type, changes nothing.
\<close>

record MarketEvent =
  me_timestamp :: int
  event_type :: string
  me_side :: string
  me_price :: real
  me_qty :: int
  order_id :: int

definition apply_market_event :: "MarketEvent \<Rightarrow> world \<Rightarrow> error + world" where
  "apply_market_event event w =
     (if event_type event = ''ADD'' then
        (case process_new_order
                (mk_Order (order_id event) (me_side event) (me_price event) (me_qty event)
                   (me_timestamp event)) w of
           Inl e \<Rightarrow> Inl e
         | Inr (res, w') \<Rightarrow> Inr w')
      else if event_type event = ''CANCEL'' then
        (let book_side = (if me_side event = ''buy'' then bids (engine w) else asks (engine w))
         in case price_levels book_side (me_price event) of
              None \<Rightarrow> Inr w
            | Some queue \<Rightarrow>
                (let remaining_to_cancel = me_qty event
                 in if queue \<noteq> [] then
                      (let target = last queue
                       in if open_qty (store w target) \<ge> remaining_to_cancel
                          then Inr (w\<lparr>store := (store w)(target :=
                                  (store w target)\<lparr>qty := qty (store w target) - remaining_to_cancel\<rparr>)\<rparr>)
                          else Inr w)
                    else Inr w))
      else Inr w)"

section \<open>The latency model (src/network.py)\<close>

record NetworkConfig =
  name :: string
  base_latency_ms :: real
  jitter_scale :: real
  drop_probability :: real

text \<open>
  numpy's generator is outside the repository. It is a parameter: a type of generator
  states with the construction from a seed and the two draws the code uses, each
  returning the value drawn and the next state.
\<close>

record 'g numpy_rng =
  default_rng :: "int \<Rightarrow> 'g"
  rng_random :: "'g \<Rightarrow> real \<times> 'g"
  rng_gamma :: "real \<Rightarrow> real \<Rightarrow> 'g \<Rightarrow> real \<times> 'g"

record 'g LatencySimulator =
  config :: NetworkConfig
  rng :: 'g

definition LatencySimulator_init :: "'g numpy_rng \<Rightarrow> NetworkConfig \<Rightarrow> int \<Rightarrow> 'g LatencySimulator" where
  "LatencySimulator_init np cfg seed = \<lparr>config = cfg, rng = default_rng np seed\<rparr>"

definition next_latency_ms :: "'g numpy_rng \<Rightarrow> 'g LatencySimulator \<Rightarrow> real \<times> 'g LatencySimulator" where
  "next_latency_ms np ls =
     (let (u, g1) = rng_random np (rng ls)
      in if u < drop_probability (config ls) then (- 1, ls\<lparr>rng := g1\<rparr>)
         else (let (jitter, g2) = rng_gamma np 2 (jitter_scale (config ls)) g1
               in (base_latency_ms (config ls) + jitter, ls\<lparr>rng := g2\<rparr>)))"

section \<open>The scheduler (simulation.py)\<close>

text \<open>
  simulation.py is one module. Its \<open>SimulationRunner\<close> is given a replayer, an engine, a
  latency simulator and a strategy, and calls the module's own \<open>apply_market_event\<close> on
  the engine, which must therefore have books with an \<open>add_order\<close> method: the module's
  own \<open>MatchingEngine\<close>. The classes of the module that share a name with a class of the
  package carry the prefix \<open>sim_\<close> here, and so do their fields where a name is taken.
\<close>

subsection \<open>Network configuration and latency simulator of the module\<close>

record sim_NetworkConfig =
  sim_name :: string
  mean_latency_ms :: real
  std_dev_latency_ms :: real
  packet_loss_rate :: real

text \<open>
  \<open>random.Random(seed)\<close> is outside the repository. It is a parameter: a type of
  generator states, the state an integer seed gives, and the draw \<open>gauss(mu, sigma)\<close>,
  which returns the value drawn and the next state. When the seed is \<open>None\<close>, the default
  of the constructor of \<open>LatencySimulator\<close>, the library seeds the generator from the
  operating system; \<open>os_seeded\<close> takes the state of that source and returns the
  generator and what is left of the source.
\<close>

record ('r, 'e) py_random =
  seeded :: "int \<Rightarrow> 'r"
  os_seeded :: "'e \<Rightarrow> 'r \<times> 'e"
  gauss :: "real \<Rightarrow> real \<Rightarrow> 'r \<Rightarrow> real \<times> 'r"

definition Random :: "('r, 'e) py_random \<Rightarrow> int option \<Rightarrow> 'e \<Rightarrow> 'r \<times> 'e" where
  "Random rnd seed env = (case seed of None \<Rightarrow> os_seeded rnd env | Some s \<Rightarrow> (seeded rnd s, env))"

record 'r sim_LatencySimulator =
  sim_config :: sim_NetworkConfig
  random :: 'r

definition sim_LatencySimulator_init ::
  "('r, 'e) py_random \<Rightarrow> sim_NetworkConfig \<Rightarrow> int option \<Rightarrow> 'e \<Rightarrow> 'r sim_LatencySimulator \<times> 'e" where
  "sim_LatencySimulator_init rnd cfg seed env =
     (let (r, env') = Random rnd seed env in (\<lparr>sim_config = cfg, random = r\<rparr>, env'))"

definition sim_next_latency_ms ::
  "('r, 'e) py_random \<Rightarrow> 'r sim_LatencySimulator \<Rightarrow> real \<times> 'r sim_LatencySimulator" where
  "sim_next_latency_ms rnd ls =
     (let (x, r') = gauss rnd (mean_latency_ms (sim_config ls)) (std_dev_latency_ms (sim_config ls))
                      (random ls)
      in (max 0.1 x, ls\<lparr>random := r'\<rparr>))"

subsection \<open>Orders, market events and the engine of the module\<close>

text \<open>
  The module's \<open>Order\<close> has no filled quantity and no status, and its engine does no
  matching: a book side keeps one quantity for each price, \<open>process_order\<close> stores the
  order under its id, adds its quantity to its side and returns \<open>ACCEPTED\<close>, and
  \<open>apply_market_event\<close> adds the quantity of an ADD event to a side and ignores every
  other event. A new engine already holds three bid levels and two ask levels.
\<close>

record sim_Order =
  so_order_id :: int
  so_side :: string
  so_price :: real
  quantity :: int
  so_timestamp :: int

record sim_MarketEvent =
  sm_timestamp :: int
  sm_event_type :: string
  sm_order_id :: int
  sm_price :: real
  sm_qty :: int
  sm_side :: string

text \<open>
  A Python \<open>dict\<close> as the list of its items in insertion order: \<open>d.get(k, v)\<close> and
  \<open>d[k] = v\<close>, which keeps the place of a key already present.
\<close>

type_synonym ('k, 'v) dict = "('k \<times> 'v) list"

definition dict_get :: "('k, 'v) dict \<Rightarrow> 'k \<Rightarrow> 'v \<Rightarrow> 'v" where
  "dict_get d k dflt = (case map_of d k of None \<Rightarrow> dflt | Some v \<Rightarrow> v)"

fun dict_set :: "('k, 'v) dict \<Rightarrow> 'k \<Rightarrow> 'v \<Rightarrow> ('k, 'v) dict" where
  "dict_set [] k v = [(k, v)]"
| "dict_set ((k', v') # d) k v = (if k' = k then (k', v) # d else (k', v') # dict_set d k v)"

text \<open>\<open>class BookSide\<close>: \<open>_levels\<close> maps a price to the quantity at that price.\<close>

type_synonym BookSide = "(real, int) dict"

definition add_order :: "BookSide \<Rightarrow> real \<Rightarrow> int \<Rightarrow> BookSide" where
  "add_order levels p q = dict_set levels p (dict_get levels p 0 + q)"

definition remove_order :: "BookSide \<Rightarrow> real \<Rightarrow> int \<Rightarrow> BookSide" where
  "remove_order levels p q =
     (if p \<in> fst ` set levels then
        (let levels1 = dict_set levels p (dict_get levels p 0 - q)
         in if dict_get levels1 p 0 \<le> 0 then filter (\<lambda>kv. fst kv \<noteq> p) levels1 else levels1)
      else levels)"

definition BidBook_best_price :: "BookSide \<Rightarrow> real option" where
  "BidBook_best_price levels =
     (if levels \<noteq> [] then Some (fold max (map fst levels) (fst (hd levels))) else None)"

definition AskBook_best_price :: "BookSide \<Rightarrow> real option" where
  "AskBook_best_price levels =
     (if levels \<noteq> [] then Some (fold min (map fst levels) (fst (hd levels))) else None)"

record sim_MatchingEngine =
  sim_bids :: BookSide
  sim_asks :: BookSide
  sim_orders :: "(int, sim_Order) dict"

definition sim_MatchingEngine_init :: sim_MatchingEngine where
  "sim_MatchingEngine_init =
     \<lparr>sim_bids = add_order (add_order (add_order [] 99.90 100) 99.95 50) 100.00 20,
      sim_asks = add_order (add_order [] 100.10 100) 100.15 50,
      sim_orders = []\<rparr>"

text \<open>The lines the module prints, with the values they show.\<close>

datatype output_line =
    Start_line
  | Market_line int string int real
  | Network_line real int
  | Arrival_line int
  | Engine_line int string int real
  | Status_line string

definition sim_process_order ::
  "sim_Order \<Rightarrow> sim_MatchingEngine \<Rightarrow> string \<times> sim_MatchingEngine \<times> output_line list" where
  "sim_process_order ord eng =
     (let line = Engine_line (so_order_id ord) (so_side ord) (quantity ord) (so_price ord);
          eng1 = eng\<lparr>sim_orders := dict_set (sim_orders eng) (so_order_id ord) ord\<rparr>;
          eng2 = (if so_side ord = ''buy''
                  then eng1\<lparr>sim_bids := add_order (sim_bids eng1) (so_price ord) (quantity ord)\<rparr>
                  else if so_side ord = ''sell''
                  then eng1\<lparr>sim_asks := add_order (sim_asks eng1) (so_price ord) (quantity ord)\<rparr>
                  else eng1)
      in (''ACCEPTED'', eng2, [line]))"

definition sim_apply_market_event :: "sim_MatchingEngine \<Rightarrow> sim_MarketEvent \<Rightarrow> sim_MatchingEngine" where
  "sim_apply_market_event eng event =
     (if sm_event_type event = ''ADD'' then
        (if sm_side event = ''buy''
         then eng\<lparr>sim_bids := add_order (sim_bids eng) (sm_price event) (sm_qty event)\<rparr>
         else eng\<lparr>sim_asks := add_order (sim_asks eng) (sm_price event) (sm_qty event)\<rparr>)
      else eng)"

text \<open>The events \<open>MarketDataReplayer.stream_events\<close> yields, whatever the file name.\<close>

definition mock_events :: "sim_MarketEvent list" where
  "mock_events =
     [\<lparr>sm_timestamp = 1000, sm_event_type = ''ADD'', sm_order_id = 1, sm_price = 99.95, sm_qty = 100, sm_side = ''buy''\<rparr>,
      \<lparr>sm_timestamp = 1010, sm_event_type = ''ADD'', sm_order_id = 2, sm_price = 100.01, sm_qty = 50, sm_side = ''sell''\<rparr>,
      \<lparr>sm_timestamp = 1020, sm_event_type = ''ADD'', sm_order_id = 3, sm_price = 100.00, sm_qty = 20, sm_side = ''buy''\<rparr>,
      \<lparr>sm_timestamp = 1030, sm_event_type = ''ADD'', sm_order_id = 4, sm_price = 100.02, sm_qty = 75, sm_side = ''sell''\<rparr>,
      \<lparr>sm_timestamp = 1040, sm_event_type = ''ADD'', sm_order_id = 5, sm_price = 100.05, sm_qty = 30, sm_side = ''buy''\<rparr>,
      \<lparr>sm_timestamp = 1050, sm_event_type = ''ADD'', sm_order_id = 6, sm_price = 100.03, sm_qty = 30, sm_side = ''buy''\<rparr>]"

subsection \<open>Events and the event queue\<close>

text \<open>
  A \<open>SimEvent\<close> is built in two places only, with the type MARKET and a market event or
  the type ORDER_ARRIVAL and an order. Its ordering compares the timestamps only: the two
  other fields are declared with \<open>compare=False\<close>.
\<close>

datatype sim_payload = MARKET sim_MarketEvent | ORDER_ARRIVAL sim_Order

record SimEvent =
  se_timestamp :: int
  payload :: sim_payload

definition SimEvent_lt :: "SimEvent \<Rightarrow> SimEvent \<Rightarrow> bool" where
  "SimEvent_lt a b = (se_timestamp a < se_timestamp b)"

text \<open>
  The queue is a Python list kept as a binary heap by \<open>heapq\<close>. Which of two events
  with equal timestamps is popped first depends on their places in the list, so the list
  and the two sift loops of the library are modelled as they are. \<open>_siftdown\<close> moves the
  item at \<open>pos\<close> towards the root past every parent it is less than. \<open>_siftup\<close> moves
  the smaller child up until a leaf is reached, puts the item there and sifts it down.
  \<open>heappush\<close> appends the item and sifts it down. \<open>heappop\<close> takes the last item off
  the list; when the list is then not empty it puts that item at the root, sifts up and
  returns the old root. On an empty list it raises \<open>IndexError\<close>.
\<close>

function heapq_siftdown_loop :: "SimEvent list \<Rightarrow> nat \<Rightarrow> nat \<Rightarrow> SimEvent \<Rightarrow> SimEvent list" where
  "heapq_siftdown_loop heap startpos pos newitem =
     (if pos > startpos then
        (let parentpos = (pos - 1) div 2;
             parent = heap ! parentpos
         in if SimEvent_lt newitem parent
            then heapq_siftdown_loop (heap[pos := parent]) startpos parentpos newitem
            else heap[pos := newitem])
      else heap[pos := newitem])"
  by pat_completeness auto
termination
  by (relation "measure (\<lambda>(heap, startpos, pos, newitem). pos)") auto

definition heapq_siftdown :: "SimEvent list \<Rightarrow> nat \<Rightarrow> nat \<Rightarrow> SimEvent list" where
  "heapq_siftdown heap startpos pos = heapq_siftdown_loop heap startpos pos (heap ! pos)"

function heapq_siftup_loop :: "SimEvent list \<Rightarrow> nat \<Rightarrow> nat \<Rightarrow> SimEvent list \<times> nat" where
  "heapq_siftup_loop heap endpos pos =
     (let childpos = 2 * pos + 1
      in if childpos < endpos then
           (let rightpos = childpos + 1;
                childpos1 = (if rightpos < endpos \<and> \<not> SimEvent_lt (heap ! childpos) (heap ! rightpos)
                             then rightpos else childpos)
            in heapq_siftup_loop (heap[pos := heap ! childpos1]) endpos childpos1)
         else (heap, pos))"
  by pat_completeness auto
termination
  by (relation "measure (\<lambda>(heap, endpos, pos). endpos - pos)") (auto simp: Let_def)

definition heapq_siftup :: "SimEvent list \<Rightarrow> nat \<Rightarrow> SimEvent list" where
  "heapq_siftup heap pos =
     (let newitem = heap ! pos;
          (heap1, pos1) = heapq_siftup_loop heap (length heap) pos
      in heapq_siftdown (heap1[pos1 := newitem]) pos pos1)"

definition heapq_heappush :: "SimEvent list \<Rightarrow> SimEvent \<Rightarrow> SimEvent list" where
  "heapq_heappush heap item = heapq_siftdown (heap @ [item]) 0 (length heap)"

definition heapq_heappop :: "SimEvent list \<Rightarrow> error + (SimEvent \<times> SimEvent list)" where
  "heapq_heappop heap =
     (if heap = [] then Inl IndexError
      else (let lastelt = last heap;
                heap1 = butlast heap
            in if heap1 \<noteq> [] then
                 (let returnitem = heap1 ! 0
                  in Inr (returnitem, heapq_siftup (heap1[0 := lastelt]) 0))
               else Inr (lastelt, heap1)))"

declare heapq_siftdown_loop.simps [simp del] heapq_siftup_loop.simps [simp del]

lemmas heapq_defs = heapq_heappush_def heapq_heappop_def heapq_siftup_def heapq_siftdown_def
  heapq_siftdown_loop.simps heapq_siftup_loop.simps SimEvent_lt_def Let_def

subsection \<open>The runner\<close>

text \<open>
  The runner calls \<open>next_latency_ms\<close> on the latency simulator it was given and
  \<open>on_market_update\<close> on its strategy, whatever their classes. The two methods are
  parameters of the model; each takes the state of its object and returns its result
  with the next state. A strategy sees the engine and answers with an order or \<open>None\<close>.
  The stream of the replayer is the list of the market events still to come. The lines
  the runner and the engine print are collected in \<open>printed\<close>; what a strategy prints
  itself is not recorded.
\<close>

record ('l, 's) SimulationRunner =
  sim_engine :: sim_MatchingEngine
  latency :: 'l
  strategy :: 's
  events :: "SimEvent list"
  current_time :: int
  market_stream :: "sim_MarketEvent list"
  printed :: "output_line list"

text \<open>\<open>int(x)\<close> on a float truncates towards zero.\<close>

definition py_int :: "real \<Rightarrow> int" where
  "py_int x = (if x \<ge> 0 then \<lfloor>x\<rfloor> else \<lceil>x\<rceil>)"

definition schedule_next_market_event :: "('l, 's) SimulationRunner \<Rightarrow> ('l, 's) SimulationRunner" where
  "schedule_next_market_event R =
     (case market_stream R of
        [] \<Rightarrow> R
      | evt # rest \<Rightarrow>
          R\<lparr>market_stream := rest,
            events := heapq_heappush (events R) \<lparr>se_timestamp = sm_timestamp evt, payload = MARKET evt\<rparr>\<rparr>)"

definition SimulationRunner_init ::
  "sim_MarketEvent list \<Rightarrow> sim_MatchingEngine \<Rightarrow> 'l \<Rightarrow> 's \<Rightarrow> ('l, 's) SimulationRunner" where
  "SimulationRunner_init replay eng latency_sim strat0 =
     schedule_next_market_event
       \<lparr>sim_engine = eng, latency = latency_sim, strategy = strat0, events = [],
        current_time = 0, market_stream = replay, printed = []\<rparr>"

type_synonym 'l next_latency = "'l \<Rightarrow> real \<times> 'l"
type_synonym 's on_market_update = "'s \<Rightarrow> sim_MatchingEngine \<Rightarrow> sim_Order option \<times> 's"

definition Strategy_on_market_update :: "unit on_market_update" where
  "Strategy_on_market_update self book_state = (None, self)"

definition SimpleMarketMaker_on_market_update :: "bool on_market_update" where
  "SimpleMarketMaker_on_market_update sent_order eng =
     (case BidBook_best_price (sim_bids eng) of
        None \<Rightarrow> (None, sent_order)
      | Some best_bid \<Rightarrow>
          if \<not> sent_order \<and> best_bid \<noteq> 0 \<and> best_bid \<ge> 100
          then (Some \<lparr>so_order_id = 999, so_side = ''buy'', so_price = 100.05, quantity = 10,
                      so_timestamp = 0\<rparr>, True)
          else (None, sent_order))"

definition handle_market_event ::
  "'l next_latency \<Rightarrow> 's on_market_update \<Rightarrow> sim_MarketEvent \<Rightarrow> ('l, 's) SimulationRunner
   \<Rightarrow> ('l, 's) SimulationRunner" where
  "handle_market_event next_latency on_update market_event R =
     (let R1 = R\<lparr>sim_engine := sim_apply_market_event (sim_engine R) market_event,
                  printed := printed R @ [Market_line (current_time R) (sm_event_type market_event)
                                           (sm_qty market_event) (sm_price market_event)]\<rparr>;
          (user_order, s') = on_update (strategy R1) (sim_engine R1);
          R2 = R1\<lparr>strategy := s'\<rparr>
      in case user_order of
           None \<Rightarrow> R2
         | Some ord \<Rightarrow>
             (let (latency_ms, l') = next_latency (latency R2);
                  latency_us = py_int (latency_ms * 1000);
                  arrival_time = current_time R2 + latency_us
              in R2\<lparr>latency := l',
                    printed := printed R2 @ [Network_line latency_ms arrival_time],
                    events := heapq_heappush (events R2)
                                \<lparr>se_timestamp = arrival_time, payload = ORDER_ARRIVAL ord\<rparr>\<rparr>))"

definition handle_order_arrival :: "sim_Order \<Rightarrow> ('l, 's) SimulationRunner \<Rightarrow> ('l, 's) SimulationRunner" where
  "handle_order_arrival ord R =
     (let (status, eng', lines) = sim_process_order ord (sim_engine R)
      in R\<lparr>sim_engine := eng',
           printed := printed R @ [Arrival_line (current_time R)] @ lines @ [Status_line status]\<rparr>)"

text \<open>
  One pass through the \<open>while self.events\<close> loop of \<open>run\<close>: \<open>None\<close> when the queue is
  empty, otherwise the runner after the pass or the exception that ended it.
\<close>

definition run_step ::
  "'l next_latency \<Rightarrow> 's on_market_update \<Rightarrow> ('l, 's) SimulationRunner
   \<Rightarrow> (error + ('l, 's) SimulationRunner) option" where
  "run_step next_latency on_update R =
     (if events R \<noteq> [] then
        (case heapq_heappop (events R) of
           Inl e \<Rightarrow> Some (Inl e)
         | Inr (sim_event, rest) \<Rightarrow>
             (let R1 = R\<lparr>events := rest, current_time := se_timestamp sim_event\<rparr>
              in case payload sim_event of
                   MARKET market_event \<Rightarrow>
                     Some (Inr (schedule_next_market_event
                                  (handle_market_event next_latency on_update market_event R1)))
                 | ORDER_ARRIVAL ord \<Rightarrow> Some (Inr (handle_order_arrival ord R1))))
      else None)"


subsection \<open>The queue keeps its events\<close>

lemma length_heapq_siftdown_loop [simp]:
  "length (heapq_siftdown_loop heap startpos pos newitem) = length heap"
  by (induction heap startpos pos newitem rule: heapq_siftdown_loop.induct)
     (subst heapq_siftdown_loop.simps, simp add: Let_def)

lemma mset_hole_move:
  assumes "i < length heap" and "j < length heap"
  shows "mset (heap[j := heap ! i, i := x]) = mset (heap[j := x])"
proof (cases "i = j")
  case True
  then show ?thesis by simp
next
  case False
  let ?h = "heap[j := x]"
  have "mset (?h[j := ?h ! i, i := ?h ! j]) = mset ?h"
    using assms by (intro mset_swap) simp_all
  moreover have "?h[j := ?h ! i, i := ?h ! j] = heap[j := heap ! i, i := x]"
    using assms False by simp
  ultimately show ?thesis by simp
qed

lemma mset_heapq_siftdown_loop:
  "pos < length heap \<Longrightarrow>
   mset (heapq_siftdown_loop heap startpos pos newitem) = mset (heap[pos := newitem])"
proof (induction heap startpos pos newitem rule: heapq_siftdown_loop.induct)
  case (1 heap startpos pos newitem)
  show ?case
  proof (cases "pos > startpos \<and> SimEvent_lt newitem (heap ! ((pos - 1) div 2))")
    case True
    let ?pp = "(pos - 1) div 2"
    have pp: "?pp < length heap" using "1.prems" by simp
    have "mset (heapq_siftdown_loop (heap[pos := heap ! ?pp]) startpos ?pp newitem)
          = mset (heap[pos := heap ! ?pp, ?pp := newitem])"
      using "1.IH" [OF _ refl refl] True pp by simp
    also have "\<dots> = mset (heap[pos := newitem])"
      using mset_hole_move [OF pp "1.prems"] .
    finally show ?thesis
      using True by (subst heapq_siftdown_loop.simps) (simp add: Let_def)
  next
    case False
    then show ?thesis by (subst heapq_siftdown_loop.simps) (auto simp: Let_def)
  qed
qed

lemma heapq_siftup_loop_facts:
  assumes "heapq_siftup_loop heap endpos pos = (heap1, pos1)"
    and "pos < length heap" and "endpos \<le> length heap"
  shows "length heap1 = length heap \<and> pos1 < length heap
         \<and> mset (heap1[pos1 := x]) = mset (heap[pos := x])"
  using assms
proof (induction heap endpos pos arbitrary: heap1 pos1 rule: heapq_siftup_loop.induct)
  case (1 heap endpos pos)
  show ?case
  proof (cases "2 * pos + 1 < endpos")
    case False
    with "1.prems" heapq_siftup_loop.simps [of heap endpos pos] show ?thesis
      by (simp add: Let_def)
  next
    case True
    define c where "c = (if 2 * pos + 1 + 1 < endpos
                            \<and> \<not> SimEvent_lt (heap ! (2 * pos + 1)) (heap ! (2 * pos + 1 + 1))
                         then 2 * pos + 1 + 1 else 2 * pos + 1)"
    have c: "c < length heap" using True "1.prems"(3) by (auto simp: c_def)
    have rec: "heapq_siftup_loop (heap[pos := heap ! c]) endpos c = (heap1, pos1)"
      using "1.prems"(1) True heapq_siftup_loop.simps [of heap endpos pos]
      by (auto simp: Let_def c_def split: if_splits)
    have "length heap1 = length (heap[pos := heap ! c]) \<and> pos1 < length (heap[pos := heap ! c])
          \<and> mset (heap1[pos1 := x]) = mset (heap[pos := heap ! c, c := x])"
      using "1.IH" [OF refl True refl c_def [symmetric, unfolded c_def] ] rec c "1.prems"(3)
      unfolding c_def by simp
    moreover have "mset (heap[pos := heap ! c, c := x]) = mset (heap[pos := x])"
      using mset_hole_move [OF c "1.prems"(2)] .
    ultimately show ?thesis by simp
  qed
qed

lemma mset_heapq_siftup:
  assumes "pos < length heap"
  shows "mset (heapq_siftup heap pos) = mset heap"
proof -
  obtain heap1 pos1 where l: "heapq_siftup_loop heap (length heap) pos = (heap1, pos1)"
    by (cases "heapq_siftup_loop heap (length heap) pos")
  from heapq_siftup_loop_facts [OF l assms order_refl, of "heap ! pos"]
  have f: "length heap1 = length heap" "pos1 < length heap"
    "mset (heap1[pos1 := heap ! pos]) = mset heap" by simp_all
  have "mset (heapq_siftdown (heap1[pos1 := heap ! pos]) pos pos1) = mset (heap1[pos1 := heap ! pos])"
    unfolding heapq_siftdown_def using f(1,2)
    by (subst mset_heapq_siftdown_loop) simp_all
  with f(3) l show ?thesis by (simp add: heapq_siftup_def Let_def)
qed

lemma mset_heapq_heappush [simp]: "mset (heapq_heappush heap item) = add_mset item (mset heap)"
  unfolding heapq_heappush_def heapq_siftdown_def
  by (subst mset_heapq_siftdown_loop) simp_all

lemma heapq_heappop_mset:
  assumes "heap \<noteq> []"
  shows "\<exists>x rest. heapq_heappop heap = Inr (x, rest) \<and> mset heap = add_mset x (mset rest)"
proof (cases "butlast heap = []")
  case True
  with assms have "heap = [last heap]" by (metis append_butlast_last_id append_Nil)
  then have "mset heap = add_mset (last heap) (mset (butlast heap))"
    using True by (metis mset.simps(1) mset.simps(2))
  with assms True show ?thesis by (simp add: heapq_heappop_def Let_def)
next
  case False
  let ?h1 = "butlast heap"
  have h: "mset heap = add_mset (last heap) (mset ?h1)"
    using assms by (metis append_butlast_last_id mset.simps(1) mset.simps(2) mset_append
        union_mset_add_mset_right add.right_neutral)
  have pos: "0 < length ?h1" using False by (cases "butlast heap") simp_all
  have "mset (heapq_siftup (?h1[0 := last heap]) 0) = mset (?h1[0 := last heap])"
    using pos by (intro mset_heapq_siftup) simp
  also have "\<dots> = add_mset (last heap) (mset ?h1 - {#?h1 ! 0#})"
    using pos by (simp add: mset_update)
  finally have "add_mset (?h1 ! 0) (mset (heapq_siftup (?h1[0 := last heap]) 0))
                = add_mset (last heap) (mset ?h1)"
    using pos by (simp add: nth_mem_mset)
  with h assms False show ?thesis by (simp add: heapq_heappop_def Let_def)
qed

lemma set_heapq_heappush [simp]: "set (heapq_heappush heap item) = insert item (set heap)"
  by (metis mset_heapq_heappush set_mset_add_mset_insert set_mset_mset)

lemma length_filter_mset: "length (filter P xs) = size (filter_mset P (mset xs))"
  by (metis mset_filter size_mset)

lemma length_heapq_heappush [simp]: "length (heapq_heappush heap item) = Suc (length heap)"
  unfolding size_mset [symmetric] by simp

lemma filter_heapq_heappush [simp]:
  "length (filter P (heapq_heappush heap item))
   = (if P item then Suc (length (filter P heap)) else length (filter P heap))"
  unfolding length_filter_mset by simp

lemma heapq_heappop_lengths:
  assumes "heapq_heappop heap = Inr (x, rest)"
  shows "length heap = Suc (length rest)"
    and "length (filter P heap) = (if P x then Suc (length (filter P rest)) else length (filter P rest))"
proof -
  have ne: "heap \<noteq> []" using assms by (auto simp: heapq_heappop_def)
  from heapq_heappop_mset [OF ne] assms have m: "mset heap = add_mset x (mset rest)" by auto
  show "length heap = Suc (length rest)"
    unfolding size_mset [symmetric] m by simp
  show "length (filter P heap) = (if P x then Suc (length (filter P rest)) else length (filter P rest))"
    unfolding length_filter_mset m by simp
qed

subsection \<open>The loop of run\<close>

text \<open>
  The loop ends: a pass takes one event off the queue; a market event can put back an
  arrival and the next market event, which shortens the stream.
\<close>

definition is_market :: "SimEvent \<Rightarrow> bool" where
  "is_market e = (case payload e of MARKET m \<Rightarrow> True | ORDER_ARRIVAL ord \<Rightarrow> False)"

definition run_measure :: "('l, 's) SimulationRunner \<Rightarrow> nat" where
  "run_measure R = 3 * length (market_stream R) + length (events R) + length (filter is_market (events R))"

lemma run_step_decreases:
  assumes "run_step next_latency on_update R = Some (Inr R')"
  shows "run_measure R' < run_measure R"
proof -
  from assms have ne: "events R \<noteq> []" by (auto simp: run_step_def split: if_splits)
  then obtain x rest where p: "heapq_heappop (events R) = Inr (x, rest)"
    using heapq_heappop_mset by blast
  note l = heapq_heappop_lengths(2) [OF p, of is_market] heapq_heappop_lengths(1) [OF p]
  show ?thesis
    using assms ne p l
    by (auto simp: run_step_def run_measure_def Let_def handle_market_event_def
        handle_order_arrival_def schedule_next_market_event_def is_market_def
        split: list.splits sim_payload.splits option.splits prod.splits if_splits)
qed

function run_loop ::
  "'l next_latency \<Rightarrow> 's on_market_update \<Rightarrow> ('l, 's) SimulationRunner \<Rightarrow> error + ('l, 's) SimulationRunner" where
  "run_loop next_latency on_update R =
     (case run_step next_latency on_update R of
        None \<Rightarrow> Inr R
      | Some (Inl e) \<Rightarrow> Inl e
      | Some (Inr R') \<Rightarrow> run_loop next_latency on_update R')"
  by pat_completeness auto
termination
  by (relation "measure (\<lambda>(next_latency, on_update, R). run_measure R)") (auto simp: run_step_decreases)

definition run ::
  "'l next_latency \<Rightarrow> 's on_market_update \<Rightarrow> ('l, 's) SimulationRunner \<Rightarrow> error + ('l, 's) SimulationRunner" where
  "run next_latency on_update R = run_loop next_latency on_update (R\<lparr>printed := printed R @ [Start_line]\<rparr>)"

declare run_loop.simps [simp del]

subsection \<open>Runs\<close>

text \<open>
  \<open>simulate\<close> is a run as the \<open>__main__\<close> block of the module builds it: the latency
  simulator of the module from a configuration and a seed, the engine of the module, the
  events of a replayer and a strategy. \<open>simulation_main\<close> is that block itself.
  \<open>simulate_network\<close> is the same run with the latency simulator of network.py in the
  place of the module's.
\<close>

definition simulate_network ::
  "'g numpy_rng \<Rightarrow> NetworkConfig \<Rightarrow> int \<Rightarrow> sim_MarketEvent list \<Rightarrow> 's on_market_update \<Rightarrow> 's
   \<Rightarrow> error + ('g LatencySimulator, 's) SimulationRunner" where
  "simulate_network np cfg seed replay on_update strat0 =
     run (next_latency_ms np) on_update
       (SimulationRunner_init replay sim_MatchingEngine_init (LatencySimulator_init np cfg seed) strat0)"

definition simulate ::
  "('r, 'e) py_random \<Rightarrow> sim_NetworkConfig \<Rightarrow> int option \<Rightarrow> sim_MarketEvent list
   \<Rightarrow> 's on_market_update \<Rightarrow> 's \<Rightarrow> 'e
   \<Rightarrow> (error + ('r sim_LatencySimulator, 's) SimulationRunner) \<times> 'e" where
  "simulate rnd cfg seed replay on_update strat0 env =
     (let (sim_latency, env') = sim_LatencySimulator_init rnd cfg seed env
      in (run (sim_next_latency_ms rnd) on_update
            (SimulationRunner_init replay sim_MatchingEngine_init sim_latency strat0), env'))"

definition p_colo :: sim_NetworkConfig where
  "p_colo = \<lparr>sim_name = ''Colo'', mean_latency_ms = 0.5, std_dev_latency_ms = 0.1, packet_loss_rate = 0\<rparr>"

definition simulation_main ::
  "('r, 'e) py_random \<Rightarrow> 'e \<Rightarrow> (error + ('r sim_LatencySimulator, bool) SimulationRunner) \<times> 'e" where
  "simulation_main rnd env =
     simulate rnd p_colo (Some 42) mock_events SimpleMarketMaker_on_market_update False env"

section \<open>The reproducibility test (tests/test_determinism.py)\<close>

text \<open>
  The test has a latency simulator of its own, built from a seed alone, whose
  \<open>next_latency\<close> is one gamma draw with shape 2.0 and scale 0.5. \<open>MockSimulation.run\<close>
  adds up the delays of the given number of packets and logs the running time (the
  variable \<open>current_time\<close> of the test is \<open>now\<close> here).
  \<open>test_reproducibility\<close> runs two simulations of 100 packets with seed 42 and asserts
  that the logs have the same length and the same entries.
\<close>

record 'g MockSimulation =
  latency_sim :: 'g
  execution_log :: "real list"





section \<open>What a run shows\<close>

text \<open>
  The latency samples and the arrival timestamps of a run are those of the NETWORK
  lines it prints, one line for each order a strategy issues.
\<close>

fun latency_samples :: "output_line list \<Rightarrow> real list" where
  "latency_samples [] = []"
| "latency_samples (Network_line l a # ls) = l # latency_samples ls"
| "latency_samples (x # ls) = latency_samples ls"



text \<open>
  The state of a latency simulator after a number of calls of its \<open>next_latency_ms\<close>,
  and the values those calls return, in the order of the calls.
\<close>

fun latency_after :: "'l next_latency \<Rightarrow> nat \<Rightarrow> 'l \<Rightarrow> 'l" where
  "latency_after next_latency 0 l = l"
| "latency_after next_latency (Suc n) l = snd (next_latency (latency_after next_latency n l))"

fun draws :: "'l next_latency \<Rightarrow> nat \<Rightarrow> 'l \<Rightarrow> real list" where
  "draws next_latency 0 l = []"
| "draws next_latency (Suc n) l =
     draws next_latency n l @ [fst (next_latency (latency_after next_latency n l))]"


text \<open>A generator library whose draws count up, for concrete runs.\<close>

definition counting_random :: "(nat, nat) py_random" where
  "counting_random =
     \<lparr>seeded = (\<lambda>s. 0), os_seeded = (\<lambda>e. (e, Suc e)),
      gauss = (\<lambda>mu sigma r. (mu + real r * sigma, Suc r))\<rparr>"

section \<open>Concrete books, generators and runs\<close>

lemmas eval_defs =
  process_new_order_def new_Order_def world_init_def process_order_def opposing_book_def
  my_book_def mk_Order_def
  MatchingEngine_init_def OrderBookSide_init_def match_step_def best_price_def open_qty_def
  side_add_def heappush_def heappop_def level_def touch_def signed_price_def is_match_def
  execute_trade_def add_filled_def set_status_def remove_filled_levels_def
  get_queue_position_def Let_def

text \<open>A caller that submits new orders one after the other, stopping at an exception.\<close>

fun run_orders :: "Order list \<Rightarrow> world \<Rightarrow> error + world" where
  "run_orders [] w = Inr w"
| "run_orders (ord # os) w =
     (case process_new_order ord w of
        Inl e \<Rightarrow> Inl e
      | Inr (res, w') \<Rightarrow> run_orders os w')"

text \<open>A generator with fixed draws and two network configurations.\<close>

definition fixed_rng :: "nat numpy_rng" where
  "fixed_rng = \<lparr>default_rng = (\<lambda>seed. 0), rng_random = (\<lambda>g. (1 / 2, Suc g)),
                rng_gamma = (\<lambda>shape scale g. (shape * scale, Suc g))\<rparr>"

definition always_drop :: NetworkConfig where
  "always_drop = \<lparr>name = ''Lossy'', base_latency_ms = 0.5, jitter_scale = 0.1, drop_probability = 1\<rparr>"

definition colo :: NetworkConfig where
  "colo = \<lparr>name = ''Colo'', base_latency_ms = 0.5, jitter_scale = 0.1, drop_probability = 0\<rparr>"

text \<open>
  The runner of a run on the mock events with a latency simulator of network.py that
  always drops, and the order the market maker issues.
\<close>

definition lossy_runner :: "(nat LatencySimulator, bool) SimulationRunner" where
  "lossy_runner =
     SimulationRunner_init mock_events sim_MatchingEngine_init
       (LatencySimulator_init fixed_rng always_drop 42) False"

definition order_999 :: sim_Order where
  "order_999 = \<lparr>so_order_id = 999, so_side = ''buy'', so_price = 100.05, quantity = 10, so_timestamp = 0\<rparr>"

lemmas sim_defs = simulate_def simulate_network_def simulation_main_def p_colo_def run_def
  SimulationRunner_init_def LatencySimulator_init_def sim_LatencySimulator_init_def Random_def
  schedule_next_market_event_def run_step_def handle_market_event_def
  handle_order_arrival_def sim_apply_market_event_def sim_process_order_def
  sim_MatchingEngine_init_def add_order_def dict_get_def BidBook_best_price_def
  next_latency_ms_def sim_next_latency_ms_def py_int_def
  SimpleMarketMaker_on_market_update_def mock_events_def fixed_rng_def always_drop_def colo_def
  counting_random_def order_999_def

definition two_sells :: world where
  "two_sells =
     projr (run_orders [mk_Order 1 ''sell'' 101 100 1000, mk_Order 2 ''sell'' 101 50 1001]
              world_init)"

lemma two_sells_level: "price_levels (asks (engine two_sells)) 101 = Some [0, 1]"
  by (simp add: two_sells_def eval_defs match_loop.simps)

lemma two_sells_store:
  "store two_sells 0 = mk_Order 1 ''sell'' 101 100 1000"
  "store two_sells (Suc 0) = mk_Order 2 ''sell'' 101 50 1001"
  by (simp_all add: two_sells_def eval_defs match_loop.simps)

lemma two_sells_run:
  "run_orders [mk_Order 1 ''sell'' 101 100 1000, mk_Order 2 ''sell'' 101 50 1001] world_init
   = Inr two_sells"
  by (simp add: two_sells_def eval_defs match_loop.simps)

lemma two_sells_next: "next_ref two_sells = 2"
  by (simp add: two_sells_def eval_defs match_loop.simps)

definition buy_99 :: Order where
  "buy_99 = mk_Order 99 ''buy'' 101.5 120 2000"

definition buy_7 :: Order where
  "buy_7 = mk_Order 7 ''buy'' 100 30 2000"

section \<open>Passes of the loop\<close>

text \<open>
  \<open>run_reaches\<close> relates a runner to the runners the loop of \<open>run\<close> passes through
  from it. The loop never raises and stops with an empty queue, and every event in the
  queue is popped in some later pass.
\<close>

definition run_reaches ::
  "'l next_latency \<Rightarrow> 's on_market_update \<Rightarrow> ('l, 's) SimulationRunner \<Rightarrow> ('l, 's) SimulationRunner \<Rightarrow> bool" where
  "run_reaches next_latency on_update =
     (\<lambda>R R'. run_step next_latency on_update R = Some (Inr R'))\<^sup>*\<^sup>*"

lemma run_step_no_raise: "run_step next_latency on_update R \<noteq> Some (Inl e)"
proof (cases "events R = []")
  case True
  then show ?thesis by (simp add: run_step_def)
next
  case False
  then obtain x rest where "heapq_heappop (events R) = Inr (x, rest)"
    using heapq_heappop_mset by blast
  with False show ?thesis
    by (auto simp: run_step_def Let_def split: sim_payload.splits)
qed

lemma run_step_None: "run_step next_latency on_update R = None \<longleftrightarrow> events R = []"
proof (cases "events R = []")
  case True
  then show ?thesis by (simp add: run_step_def)
next
  case False
  then obtain x rest where "heapq_heappop (events R) = Inr (x, rest)"
    using heapq_heappop_mset by blast
  with False show ?thesis
    by (auto simp: run_step_def Let_def split: sim_payload.splits)
qed

lemma run_reaches_refl [simp]: "run_reaches next_latency on_update R R"
  by (simp add: run_reaches_def)

lemma run_reaches_step:
  "run_step next_latency on_update R = Some (Inr R') \<Longrightarrow> run_reaches next_latency on_update R' R''
   \<Longrightarrow> run_reaches next_latency on_update R R''"
  unfolding run_reaches_def by (rule converse_rtranclp_into_rtranclp)


lemma run_reaches_run_loop:
  "run_reaches next_latency on_update R R1
   \<Longrightarrow> run_loop next_latency on_update R = run_loop next_latency on_update R1"
  unfolding run_reaches_def
  by (induction rule: rtranclp_induct) (simp_all add: run_loop.simps [of _ _ R] run_loop.simps)

lemma run_step_keeps_events:
  assumes "run_step next_latency on_update R = Some (Inr R')"
    and "heapq_heappop (events R) = Inr (x, rest)"
  shows "mset rest \<subseteq># mset (events R')"
  using assms
  by (auto simp: run_step_def Let_def handle_market_event_def handle_order_arrival_def
      schedule_next_market_event_def
      split: if_splits sim_payload.splits option.splits prod.splits list.splits)

lemma event_is_popped:
  "e \<in> set (events R) \<Longrightarrow>
   \<exists>R1 rest. run_reaches next_latency on_update R R1 \<and> heapq_heappop (events R1) = Inr (e, rest)"
proof (induction "run_measure R" arbitrary: R rule: less_induct)
  case less
  from less.prems have ne: "events R \<noteq> []" by auto
  then obtain x rest where p: "heapq_heappop (events R) = Inr (x, rest)"
    and m: "mset (events R) = add_mset x (mset rest)"
    using heapq_heappop_mset by blast
  show ?case
  proof (cases "x = e")
    case True
    with p show ?thesis using run_reaches_refl by blast
  next
    case False
    obtain R' where s: "run_step next_latency on_update R = Some (Inr R')"
      using ne run_step_None [of next_latency on_update R]
        run_step_no_raise [of next_latency on_update R]
      by (cases "run_step next_latency on_update R") (auto, metis sum.exhaust)
    have "e \<in># mset (events R)" using less.prems by simp
    with m False have "e \<in># mset rest" by simp
    with run_step_keeps_events [OF s p] have "e \<in> set (events R')"
      by (metis mset_subset_eqD set_mset_mset)
    from less.hyps [OF run_step_decreases [OF s] this] obtain R1 rest1 where
      "run_reaches next_latency on_update R' R1" "heapq_heappop (events R1) = Inr (e, rest1)"
      by blast
    with run_reaches_step [OF s] show ?thesis by blast
  qed
qed

section \<open>Determinism\<close>

lemma latency_samples_append [simp]:
  "latency_samples (xs @ ys) = latency_samples xs @ latency_samples ys"
  by (induction xs rule: latency_samples.induct) simp_all

lemma length_draws [simp]: "length (draws next_latency n l) = n"
  by (induction n) simp_all







lemma unseeded_runs_differ:
  "map_sum id (\<lambda>R. latency_samples (printed R))
     (fst (simulate counting_random p_colo None mock_events SimpleMarketMaker_on_market_update False 1))
   \<noteq> map_sum id (\<lambda>R. latency_samples (printed R))
     (fst (simulate counting_random p_colo None mock_events SimpleMarketMaker_on_market_update False 2))"
  by (simp add: sim_defs heapq_defs run_loop.simps)



section \<open>Book invariants\<close>

text \<open>
  A side is well formed for a store and an allocation pointer when its heap is strictly
  ascending and holds exactly the signed prices of its levels, every level's queue is
  non-empty and without repetition, and every queued reference is allocated, rests at
  its own price, has open quantity and carries the side of the book it is in (sell
  orders in the asks, every other order in the bids).
\<close>

definition in_book :: "ref \<Rightarrow> OrderBookSide \<Rightarrow> bool" where
  "in_book r S \<longleftrightarrow> (\<exists>p q. price_levels S p = Some q \<and> r \<in> set q)"

definition side_inv :: "store \<Rightarrow> nat \<Rightarrow> OrderBookSide \<Rightarrow> bool" where
  "side_inv st n S \<longleftrightarrow>
     sorted (price_heap S) \<and> distinct (price_heap S) \<and>
     set (price_heap S) = signed_price (is_bid S) ` dom (price_levels S) \<and>
     (\<forall>p q. price_levels S p = Some q \<longrightarrow>
        q \<noteq> [] \<and> distinct q \<and>
        (\<forall>r\<in>set q. r < n \<and> price (st r) = p \<and> 0 < open_qty (st r)
                    \<and> (side (st r) = ''sell'') = (\<not> is_bid S)))"

lemma signed_price_inj [simp]: "signed_price b x = signed_price b y \<longleftrightarrow> x = y"
  by (simp add: signed_price_def)

lemma side_inv_head_level:
  assumes "side_inv st n S" and "price_heap S = x # h"
  obtains maker rest where "price_levels S (signed_price (is_bid S) x) = Some (maker # rest)"
proof -
  from assms have "x \<in> signed_price (is_bid S) ` dom (price_levels S)"
    by (auto simp: side_inv_def)
  then obtain p q where "x = signed_price (is_bid S) p" "price_levels S p = Some q"
    by auto
  moreover from this assms have "q \<noteq> []" by (auto simp: side_inv_def)
  ultimately show ?thesis
    using that by (cases q) auto
qed

text \<open>Frame facts about execute_trade.\<close>

lemma execute_trade_other:
  "execute_trade m t k p (st, tr) = (st', tr') \<Longrightarrow> r \<noteq> m \<Longrightarrow> r \<noteq> t \<Longrightarrow> st' r = st r"
  by (auto simp: execute_trade_def Let_def add_filled_def set_status_def)

lemma execute_trade_fields:
  "execute_trade m t k p (st, tr) = (st', tr') \<Longrightarrow>
   price (st' r) = price (st r) \<and> side (st' r) = side (st r) \<and> oid (st' r) = oid (st r)
   \<and> qty (st' r) = qty (st r)"
  by (auto simp: execute_trade_def Let_def add_filled_def set_status_def)

lemma execute_trade_filled:
  "execute_trade m t k p (st, tr) = (st', tr') \<Longrightarrow> m \<noteq> t \<Longrightarrow>
   filled_qty (st' m) = filled_qty (st m) + k \<and> filled_qty (st' t) = filled_qty (st t) + k"
  by (auto simp: execute_trade_def Let_def add_filled_def set_status_def)

lemma execute_trade_trades:
  "execute_trade m t k p (st, tr) = (st', tr') \<Longrightarrow>
   tr' = tr @ [\<lparr>trade_price = p, trade_qty = k, maker_order_id = oid (st m), taker_order_id = oid (st t)\<rparr>]"
  by (auto simp: execute_trade_def Let_def add_filled_def set_status_def)

text \<open>The shape of a pass that goes on.\<close>

lemma match_step_Continue:
  assumes "match_step t (st, ob, tr) = Continue (st', ob', tr')"
  obtains x h maker rest where
    "price_heap ob = x # h"
    "0 < open_qty (st t)"
    "is_match (st t) (signed_price (is_bid ob) x)"
    "level (price_levels ob) (signed_price (is_bid ob) x) = maker # rest"
    "execute_trade maker t (min (open_qty (st t)) (open_qty (st maker)))
        (signed_price (is_bid ob) x) (st, tr) = (st', tr')"
    "ob' = (if open_qty (st' maker) = 0
            then remove_filled_levels
                   (ob\<lparr>price_levels := (price_levels ob)(signed_price (is_bid ob) x \<mapsto> rest)\<rparr>)
            else ob)"
  using assms
  by (auto simp: match_step_def best_price_def Let_def split: if_splits list.splits prod.splits)


lemma side_inv_store:
  assumes "side_inv st n S"
    and "\<And>r. in_book r S \<Longrightarrow>
           price (st' r) = price (st r) \<and> side (st' r) = side (st r) \<and> 0 < open_qty (st' r)"
    and "n \<le> n'"
  shows "side_inv st' n' S"
  using assms unfolding side_inv_def in_book_def by (auto; fastforce)

lemma side_inv_heap:
  assumes "side_inv st n S"
  shows "sorted (price_heap S)" and "distinct (price_heap S)"
    and "set (price_heap S) = signed_price (is_bid S) ` dom (price_levels S)"
  using assms by (simp_all add: side_inv_def)

lemma side_inv_level:
  assumes "side_inv st n S" and "price_levels S p = Some q"
  shows "q \<noteq> []" and "distinct q"
    and "\<And>r. r \<in> set q \<Longrightarrow> r < n \<and> price (st r) = p \<and> 0 < open_qty (st r)
                 \<and> (side (st r) = ''sell'') = (\<not> is_bid S)"
  using assms unfolding side_inv_def by blast+

lemma side_invI:
  assumes "sorted (price_heap S)" and "distinct (price_heap S)"
    and "set (price_heap S) = signed_price (is_bid S) ` dom (price_levels S)"
    and "\<And>p q. price_levels S p = Some q \<Longrightarrow> q \<noteq> [] \<and> distinct q"
    and "\<And>p q r. price_levels S p = Some q \<Longrightarrow> r \<in> set q \<Longrightarrow>
           r < n \<and> price (st r) = p \<and> 0 < open_qty (st r) \<and> (side (st r) = ''sell'') = (\<not> is_bid S)"
  shows "side_inv st n S"
  using assms unfolding side_inv_def by blast

lemma heap_member_level:
  assumes "side_inv st n S" and "y \<in> set (price_heap S)"
  obtains q where "price_levels S (signed_price (is_bid S) y) = Some q" and "q \<noteq> []"
proof -
  from assms have "y \<in> signed_price (is_bid S) ` dom (price_levels S)"
    by (simp add: side_inv_heap(3))
  then obtain p q where "y = signed_price (is_bid S) p" "price_levels S p = Some q"
    by auto
  moreover from this assms have "q \<noteq> []" by (auto dest: side_inv_level(1))
  ultimately show ?thesis using that by simp
qed

lemma pop_maker:
  assumes inv: "side_inv st n S" and heap: "price_heap S = x # h"
    and lv: "price_levels S (signed_price (is_bid S) x) = Some (maker # rest)"
  shows "remove_filled_levels
           (S\<lparr>price_levels := (price_levels S)(signed_price (is_bid S) x \<mapsto> rest)\<rparr>)
         = (if rest = [] then S\<lparr>price_heap := h,
                                price_levels := (price_levels S)(signed_price (is_bid S) x := None)\<rparr>
            else S\<lparr>price_levels := (price_levels S)(signed_price (is_bid S) x \<mapsto> rest)\<rparr>)"
proof (cases "rest = []")
  case False
  then show ?thesis
    using heap by (simp add: remove_filled_levels_def level_def)
next
  case True
  let ?bp = "signed_price (is_bid S) x"
  let ?L = "(price_levels S)(?bp := None)"
  have "drop_empty (is_bid S) h ?L = (h, ?L)"
  proof (cases h)
    case Nil
    then show ?thesis by simp
  next
    case (Cons y h')
    with heap have "y \<in> set (price_heap S)" by simp
    from heap_member_level [OF inv this]
    obtain q where q: "price_levels S (signed_price (is_bid S) y) = Some q" "q \<noteq> []" .
    from side_inv_heap(2) [OF inv] heap Cons have "y \<noteq> x" by auto
    with q have "level ?L (signed_price (is_bid S) y) \<noteq> []"
      by (simp add: level_def)
    with Cons show ?thesis by simp
  qed
  with True heap show ?thesis
    by (simp add: remove_filled_levels_def level_def heappop_def)
qed

lemma side_inv_pop:
  assumes inv: "side_inv st n S" and heap: "price_heap S = x # h"
    and lv: "price_levels S (signed_price (is_bid S) x) = Some (maker # rest)"
    and S': "S' = remove_filled_levels
                 (S\<lparr>price_levels := (price_levels S)(signed_price (is_bid S) x \<mapsto> rest)\<rparr>)"
  shows "side_inv st n S'" and "\<And>r. in_book r S' \<Longrightarrow> in_book r S \<and> r \<noteq> maker"
    and "is_bid S' = is_bid S" and "orders S' = orders S"
    and "price_heap S' = x # h \<or> price_heap S' = h"
proof -
  let ?bp = "signed_price (is_bid S) x"
  note pm = pop_maker [OF inv heap lv]
  from side_inv_level(2) [OF inv lv] have dq: "maker \<notin> set rest" "distinct rest" by auto
  have other: "maker \<notin> set q" if "p \<noteq> ?bp" "price_levels S p = Some q" for p q
  proof
    assume "maker \<in> set q"
    with side_inv_level(3) [OF inv that(2)] have "price (st maker) = p" by blast
    moreover from side_inv_level(3) [OF inv lv, of maker] have "price (st maker) = ?bp" by simp
    ultimately show False using that(1) by simp
  qed
  have lev: "\<exists>q0. price_levels S p = Some q0 \<and> set q \<subseteq> set q0 \<and> maker \<notin> set q \<and> q \<noteq> [] \<and> distinct q"
    if "price_levels S' p = Some q" for p q
  proof (cases "p = ?bp")
    case True
    with that S' pm have "rest \<noteq> []" "q = rest" by (auto split: if_splits)
    with True lv dq show ?thesis by auto
  next
    case False
    with that S' pm have "price_levels S p = Some q" by (auto split: if_splits)
    with other [OF False this] side_inv_level(1,2) [OF inv this] show ?thesis by auto
  qed
  show "is_bid S' = is_bid S" "orders S' = orders S" "price_heap S' = x # h \<or> price_heap S' = h"
    using S' pm heap by (auto split: if_splits)
  show "in_book r S' \<Longrightarrow> in_book r S \<and> r \<noteq> maker" for r
    unfolding in_book_def using lev by blast
  show "side_inv st n S'"
  proof (rule side_invI)
    show "sorted (price_heap S')" "distinct (price_heap S')"
      using S' pm heap side_inv_heap(1,2) [OF inv] by (auto split: if_splits)
    show "set (price_heap S') = signed_price (is_bid S') ` dom (price_levels S')"
    proof (cases "rest = []")
      case True
      from side_inv_heap(2,3) [OF inv] heap
      have "x \<notin> set h" "insert x (set h) = signed_price (is_bid S) ` dom (price_levels S)"
        by auto
      note hs = this
      have "set h = signed_price (is_bid S) ` (dom (price_levels S) - {?bp})"
      proof (intro set_eqI iffI)
        fix y assume y: "y \<in> set h"
        with hs have "y \<in> signed_price (is_bid S) ` dom (price_levels S)" by blast
        then obtain p where p: "y = signed_price (is_bid S) p" "p \<in> dom (price_levels S)"
          by blast
        from y hs(1) have "y \<noteq> x" by blast
        with p have "p \<noteq> ?bp" by auto
        with p show "y \<in> signed_price (is_bid S) ` (dom (price_levels S) - {?bp})" by blast
      next
        fix y assume "y \<in> signed_price (is_bid S) ` (dom (price_levels S) - {?bp})"
        then obtain p where p: "y = signed_price (is_bid S) p" "p \<in> dom (price_levels S)" "p \<noteq> ?bp"
          by blast
        then have "y \<in> insert x (set h)" using hs(2) by blast
        moreover from p have "y \<noteq> x" by auto
        ultimately show "y \<in> set h" by blast
      qed
      with True S' pm show ?thesis by simp
    next
      case False
      have "dom ((price_levels S)(?bp \<mapsto> rest)) = dom (price_levels S)"
        using lv by auto
      with False S' pm side_inv_heap(3) [OF inv] show ?thesis by simp
    qed
    show "q \<noteq> [] \<and> distinct q" if "price_levels S' p = Some q" for p q
      using lev [OF that] by blast
    show "r < n \<and> price (st r) = p \<and> 0 < open_qty (st r) \<and> (side (st r) = ''sell'') = (\<not> is_bid S')"
      if "price_levels S' p = Some q" "r \<in> set q" for p q r
    proof -
      from lev [OF that(1)] that(2) obtain q0 where "price_levels S p = Some q0" "r \<in> set q0"
        by blast
      from side_inv_level(3) [OF inv this] \<open>is_bid S' = is_bid S\<close> show ?thesis by simp
    qed
  qed
qed


section \<open>The loop keeps the book well formed\<close>

definition loop_inv :: "ref \<Rightarrow> nat \<Rightarrow> OrderBookSide \<Rightarrow> match_state \<Rightarrow> bool" where
  "loop_inv t n mine = (\<lambda>(st, ob, tr).
     side_inv st n ob \<and> side_inv st n mine
     \<and> is_bid ob = (side (st t) = ''sell'') \<and> is_bid mine = (side (st t) \<noteq> ''sell'')
     \<and> \<not> in_book t ob \<and> \<not> in_book t mine)"

lemma match_step_facts:
  assumes inv: "loop_inv t n mine (st, ob, tr)"
    and step: "match_step t (st, ob, tr) = Continue (st', ob', tr')"
  obtains x h maker rest k where
    "price_heap ob = x # h"
    "price_levels ob (signed_price (is_bid ob) x) = Some (maker # rest)"
    "is_match (st t) (signed_price (is_bid ob) x)"
    "maker \<noteq> t" "maker < n" "\<not> in_book maker mine"
    "k = min (open_qty (st t)) (open_qty (st maker))"
    "0 < k"
    "execute_trade maker t k (signed_price (is_bid ob) x) (st, tr) = (st', tr')"
    "ob' = (if open_qty (st' maker) = 0
            then (if rest = []
                  then ob\<lparr>price_heap := h,
                          price_levels := (price_levels ob)(signed_price (is_bid ob) x := None)\<rparr>
                  else ob\<lparr>price_levels := (price_levels ob)(signed_price (is_bid ob) x \<mapsto> rest)\<rparr>)
            else ob)"
    "loop_inv t n mine (st', ob', tr')"
proof -
  from inv have io: "side_inv st n ob" and im: "side_inv st n mine"
    and sides: "is_bid ob = (side (st t) = ''sell'')" "is_bid mine = (side (st t) \<noteq> ''sell'')"
    and fresh: "\<not> in_book t ob" "\<not> in_book t mine"
    by (simp_all add: loop_inv_def)
  from match_step_Continue [OF step] obtain x h maker rest where
    heap: "price_heap ob = x # h" and pos: "0 < open_qty (st t)"
    and cross: "is_match (st t) (signed_price (is_bid ob) x)"
    and lv0: "level (price_levels ob) (signed_price (is_bid ob) x) = maker # rest"
    and ex: "execute_trade maker t (min (open_qty (st t)) (open_qty (st maker)))
        (signed_price (is_bid ob) x) (st, tr) = (st', tr')"
    and ob': "ob' = (if open_qty (st' maker) = 0
            then remove_filled_levels
                   (ob\<lparr>price_levels := (price_levels ob)(signed_price (is_bid ob) x \<mapsto> rest)\<rparr>)
            else ob)"
    by blast
  let ?bp = "signed_price (is_bid ob) x"
  let ?k = "min (open_qty (st t)) (open_qty (st maker))"
  from lv0 have lv: "price_levels ob ?bp = Some (maker # rest)"
    by (auto simp: level_def split: option.splits)
  then have mb: "in_book maker ob" unfolding in_book_def by force
  with fresh have mt: "maker \<noteq> t" by auto
  from side_inv_level(3) [OF io lv, of maker]
  have mk: "maker < n" "0 < open_qty (st maker)" "(side (st maker) = ''sell'') = (\<not> is_bid ob)"
    by simp_all
  have mm: "\<not> in_book maker mine"
  proof
    assume "in_book maker mine"
    then obtain p q where "price_levels mine p = Some q" "maker \<in> set q"
      by (auto simp: in_book_def)
    from side_inv_level(3) [OF im this] mk(3) sides show False by auto
  qed
  from pos mk(2) have kpos: "0 < ?k" by simp
  note other = execute_trade_other [OF ex]
  note fields = execute_trade_fields [OF ex]
  note filled = execute_trade_filled [OF ex mt]
  have open_maker: "open_qty (st' maker) = open_qty (st maker) - ?k"
    using filled fields [of maker] by (simp add: open_qty_def)
  have im': "side_inv st' n mine"
  proof (rule side_inv_store [OF im _ order_refl])
    fix r assume r: "in_book r mine"
    with mm fresh have "r \<noteq> maker" "r \<noteq> t" by auto
    then have "st' r = st r" by (rule other)
    moreover from r obtain p q where "price_levels mine p = Some q" "r \<in> set q"
      by (auto simp: in_book_def)
    from side_inv_level(3) [OF im this] have "0 < open_qty (st r)" by simp
    ultimately show "price (st' r) = price (st r) \<and> side (st' r) = side (st r) \<and> 0 < open_qty (st' r)"
      by simp
  qed
  have sides': "is_bid ob = (side (st' t) = ''sell'')" "is_bid mine = (side (st' t) \<noteq> ''sell'')"
    using sides fields [of t] by simp_all
  show ?thesis
  proof (cases "open_qty (st' maker) = 0")
    case True
    let ?S = "remove_filled_levels (ob\<lparr>price_levels := (price_levels ob)(?bp \<mapsto> rest)\<rparr>)"
    from True ob' have ob'': "ob' = ?S" by simp
    note pop = side_inv_pop [OF io heap lv ob'']
    have io': "side_inv st' n ob'"
    proof (rule side_inv_store [OF pop(1) _ order_refl])
      fix r assume r: "in_book r ob'"
      with pop(2) fresh have "r \<noteq> maker" "r \<noteq> t" "in_book r ob'" by auto
      then have "st' r = st r" by (auto intro: other)
      moreover from r obtain p q where "price_levels ob' p = Some q" "r \<in> set q"
        by (auto simp: in_book_def)
      from side_inv_level(3) [OF pop(1) this] have "0 < open_qty (st r)" by simp
      ultimately show "price (st' r) = price (st r) \<and> side (st' r) = side (st r) \<and> 0 < open_qty (st' r)"
        by simp
    qed
    from pop(2) fresh have ft: "\<not> in_book t ob'" by auto
    have li: "loop_inv t n mine (st', ob', tr')"
      using io' im' sides' pop(3) ft fresh by (simp add: loop_inv_def)
    from True ob' pop_maker [OF io heap lv]
    have "ob' = (if open_qty (st' maker) = 0
            then (if rest = []
                  then ob\<lparr>price_heap := h, price_levels := (price_levels ob)(?bp := None)\<rparr>
                  else ob\<lparr>price_levels := (price_levels ob)(?bp \<mapsto> rest)\<rparr>)
            else ob)" by simp
    with heap lv cross mt mk(1) mm kpos ex li show ?thesis
      by (intro that [of x h maker rest ?k]) auto
  next
    case False
    with ob' have ob'': "ob' = ob" by simp
    from False open_maker kpos have om: "0 < open_qty (st' maker)" by (simp add: min_def split: if_splits)
    have io': "side_inv st' n ob"
    proof (rule side_inv_store [OF io _ order_refl])
      fix r assume r: "in_book r ob"
      with fresh have rt: "r \<noteq> t" by auto
      from r obtain p q where "price_levels ob p = Some q" "r \<in> set q"
        by (auto simp: in_book_def)
      from side_inv_level(3) [OF io this] have "0 < open_qty (st r)" by simp
      with om other [OF _ rt] fields [of r]
      show "price (st' r) = price (st r) \<and> side (st' r) = side (st r) \<and> 0 < open_qty (st' r)"
        by (cases "r = maker") auto
    qed
    have li: "loop_inv t n mine (st', ob', tr')"
      using io' im' sides' fresh ob'' by (simp add: loop_inv_def)
    from False ob'' heap lv cross mt mk(1) mm kpos ex li show ?thesis
      by (intro that [of x h maker rest ?k]) auto
  qed
qed

lemma match_step_no_raise:
  assumes "loop_inv t n mine (st, ob, tr)"
  shows "match_step t (st, ob, tr) \<noteq> Raise e"
proof
  assume r: "match_step t (st, ob, tr) = Raise e"
  then obtain x h where heap: "price_heap ob = x # h"
    and "level (price_levels ob) (signed_price (is_bid ob) x) = []"
    by (auto simp: match_step_def best_price_def Let_def split: if_splits list.splits prod.splits)
  moreover from assms have "side_inv st n ob" by (simp add: loop_inv_def)
  from side_inv_head_level [OF this heap] obtain maker rest
    where "price_levels ob (signed_price (is_bid ob) x) = Some (maker # rest)" .
  ultimately show False by (simp add: level_def)
qed

text \<open>An invariant of the passes holds when the loop ends, and the loop ends without raising.\<close>

lemma match_loop_invariant:
  assumes "P s"
    and "\<And>s s'. P s \<Longrightarrow> match_step t s = Continue s' \<Longrightarrow> P s'"
    and "\<And>s e. P s \<Longrightarrow> match_step t s \<noteq> Raise e"
  shows "\<exists>s'. match_loop t s = Inr s' \<and> P s' \<and> match_step t s' = Break"
  using assms(1)
proof (induction "match_measure t s" arbitrary: s rule: less_induct)
  case less
  show ?case
  proof (cases "match_step t s")
    case Break
    with less.prems show ?thesis by (simp add: match_loop.simps)
  next
    case (Raise e)
    with assms(3) less.prems show ?thesis by blast
  next
    case (Continue s')
    with assms(2) less.prems have "P s'" by blast
    from less.hyps [OF match_step_decreases [OF Continue] this] Continue show ?thesis
      by (simp add: match_loop.simps [of t s])
  qed
qed


section \<open>Adding the rest of an order\<close>

lemma side_add_simps [simp]:
  "is_bid (side_add st r S) = is_bid S"
  by (simp add: side_add_def Let_def)

lemma best_price_side_add:
  assumes "best_price (side_add st r S) = Some c"
  shows "c = price (st r) \<or> best_price S = Some c"
proof (cases "price_levels S (price (st r))")
  case (Some q)
  with assms show ?thesis
    by (auto simp: side_add_def Let_def best_price_def split: list.splits)
next
  case None
  show ?thesis
  proof (cases "price_heap S")
    case Nil
    with None assms show ?thesis
      by (simp add: side_add_def Let_def best_price_def heappush_def)
  next
    case (Cons y h)
    with None assms show ?thesis
      by (auto simp: side_add_def Let_def best_price_def heappush_def split: if_splits)
  qed
qed

lemma side_inv_add:
  assumes inv: "side_inv st n S" and r: "r < n" "\<not> in_book r S" "0 < open_qty (st r)"
    "(side (st r) = ''sell'') = (\<not> is_bid S)"
  shows "side_inv st n (side_add st r S)"
proof (cases "price_levels S (price (st r))")
  case None
  let ?p = "price (st r)"
  let ?S = "S\<lparr>price_heap := insort (signed_price (is_bid S) ?p) (price_heap S),
              price_levels := (price_levels S)(?p \<mapsto> [r]),
              orders := (orders S)(oid (st r) \<mapsto> r)\<rparr>"
  from None have eq: "side_add st r S = ?S"
    by (simp add: side_add_def Let_def heappush_def level_def)
  have notin: "signed_price (is_bid S) ?p \<notin> set (price_heap S)"
  proof
    assume "signed_price (is_bid S) ?p \<in> set (price_heap S)"
    from heap_member_level [OF inv this] None show False by simp
  qed
  show ?thesis unfolding eq
  proof (rule side_invI)
    show "sorted (price_heap ?S)" "distinct (price_heap ?S)"
      using side_inv_heap(1,2) [OF inv] notin by (simp_all add: sorted_insort distinct_insort)
    show "set (price_heap ?S) = signed_price (is_bid ?S) ` dom (price_levels ?S)"
      using side_inv_heap(3) [OF inv] by (simp add: set_insort_key)
    show "q \<noteq> [] \<and> distinct q" if "price_levels ?S p = Some q" for p q
      using that side_inv_level(1,2) [OF inv, of p q] by (auto split: if_splits)
    show "x < n \<and> price (st x) = p \<and> 0 < open_qty (st x) \<and> (side (st x) = ''sell'') = (\<not> is_bid ?S)"
      if "price_levels ?S p = Some q" "x \<in> set q" for p q x
      using that r side_inv_level(3) [OF inv, of p q x] by (auto split: if_splits)
  qed
next
  case (Some q0)
  let ?p = "price (st r)"
  let ?S = "S\<lparr>price_levels := (price_levels S)(?p \<mapsto> q0 @ [r]),
              orders := (orders S)(oid (st r) \<mapsto> r)\<rparr>"
  from Some have eq: "side_add st r S = ?S"
    by (simp add: side_add_def Let_def level_def)
  from Some r(2) have rq: "r \<notin> set q0" by (auto simp: in_book_def)
  from Some have dom: "dom ((price_levels S)(?p \<mapsto> q0 @ [r])) = dom (price_levels S)" by auto
  show ?thesis unfolding eq
  proof (rule side_invI)
    show "sorted (price_heap ?S)" "distinct (price_heap ?S)"
      using side_inv_heap(1,2) [OF inv] by simp_all
    show "set (price_heap ?S) = signed_price (is_bid ?S) ` dom (price_levels ?S)"
      using side_inv_heap(3) [OF inv] dom by simp
    show "q \<noteq> [] \<and> distinct q" if "price_levels ?S p = Some q" for p q
      using that side_inv_level(1,2) [OF inv, of p q] side_inv_level(2) [OF inv Some] rq
      by (auto split: if_splits)
    show "x < n \<and> price (st x) = p \<and> 0 < open_qty (st x) \<and> (side (st x) = ''sell'') = (\<not> is_bid ?S)"
      if "price_levels ?S p = Some q" "x \<in> set q" for p q x
      using that r side_inv_level(3) [OF inv, of p q x] side_inv_level(3) [OF inv Some, of x]
      by (auto split: if_splits)
  qed
qed

section \<open>Worlds\<close>

definition world_inv :: "world \<Rightarrow> bool" where
  "world_inv w \<longleftrightarrow>
     is_bid (bids (engine w)) \<and> \<not> is_bid (asks (engine w))
     \<and> side_inv (store w) (next_ref w) (bids (engine w))
     \<and> side_inv (store w) (next_ref w) (asks (engine w))"

definition match_start :: "ref \<Rightarrow> world \<Rightarrow> match_state" where
  "match_start t w = (store w, opposing_book (store w t) (engine w), trades (engine w))"

lemma in_book_less: "side_inv st n S \<Longrightarrow> in_book r S \<Longrightarrow> r < n"
  unfolding in_book_def using side_inv_level(3) by blast

lemma loop_inv_start:
  assumes "world_inv w" and "new_Order ord w = (t, w1)"
  shows "loop_inv t (Suc t) (my_book ord (engine w)) (match_start t w1)"
    and "t = next_ref w" and "store w1 t = ord" and "engine w1 = engine w"
    and "next_ref w1 = Suc t"
proof -
  from assms(2) have t: "t = next_ref w" and w1: "w1 = w\<lparr>store := (store w)(t := ord), next_ref := Suc t\<rparr>"
    by (auto simp: new_Order_def)
  show "t = next_ref w" by fact
  show "store w1 t = ord" "engine w1 = engine w" "next_ref w1 = Suc t" using w1 by simp_all
  have keep: "side_inv (store w1) (Suc t) S \<and> \<not> in_book t S" if S: "side_inv (store w) t S" for S
  proof
    show nb: "\<not> in_book t S" using in_book_less [OF S] by blast
    show "side_inv (store w1) (Suc t) S"
    proof (rule side_inv_store [OF S])
      fix r assume r: "in_book r S"
      with nb have "r \<noteq> t" by auto
      then have "store w1 r = store w r" using w1 by simp
      moreover from r obtain p q where "price_levels S p = Some q" "r \<in> set q"
        by (auto simp: in_book_def)
      from side_inv_level(3) [OF S this] have "0 < open_qty (store w r)" by simp
      ultimately show "price (store w1 r) = price (store w r) \<and> side (store w1 r) = side (store w r)
          \<and> 0 < open_qty (store w1 r)" by simp
    qed simp
  qed
  from assms(1) t have "side_inv (store w) t (bids (engine w))" "side_inv (store w) t (asks (engine w))"
    "is_bid (bids (engine w))" "\<not> is_bid (asks (engine w))"
    by (simp_all add: world_inv_def)
  with keep [of "bids (engine w)"] keep [of "asks (engine w)"] w1
  show "loop_inv t (Suc t) (my_book ord (engine w)) (match_start t w1)"
    by (auto simp: loop_inv_def match_start_def opposing_book_def my_book_def)
qed

lemma loop_inv_step:
  assumes "loop_inv t n mine s" and "match_step t s = Continue s'"
  shows "loop_inv t n mine s'"
proof -
  obtain st ob tr st' ob' tr' where "s = (st, ob, tr)" "s' = (st', ob', tr')"
    by (cases s, cases s') auto
  with assms match_step_facts [of t n mine st ob tr st' ob' tr'] show ?thesis by metis
qed

lemma loop_inv_no_raise:
  assumes "loop_inv t n mine s"
  shows "match_step t s \<noteq> Raise e"
  using assms match_step_no_raise by (cases s) auto

text \<open>What \<open>process_order\<close> returns, from the state in which its loop ends.\<close>

lemma process_order_result:
  assumes "match_loop t (match_start t w1) = Inr (st', ob', tr')"
  shows "process_order t w1 =
     Inr (if 0 < open_qty (st' t) then ''RESTING'' else ''FILLED'',
          w1\<lparr>store := st',
             engine := (if side (store w1 t) = ''sell''
                then \<lparr>bids = ob',
                      asks = (if 0 < open_qty (st' t) then side_add st' t (asks (engine w1))
                              else asks (engine w1)),
                      trades = tr'\<rparr>
                else \<lparr>bids = (if 0 < open_qty (st' t) then side_add st' t (bids (engine w1))
                              else bids (engine w1)),
                      asks = ob', trades = tr'\<rparr>)\<rparr>)"
  using assms by (simp add: process_order_def match_start_def Let_def my_book_def)


lemma process_new_order_world_inv:
  assumes "world_inv w"
  shows "\<exists>res w'. process_new_order ord w = Inr (res, w') \<and> world_inv w'
           \<and> next_ref w' = Suc (next_ref w)"
proof -
  obtain t w1 where nw: "new_Order ord w = (t, w1)" by (cases "new_Order ord w") auto
  note start = loop_inv_start [OF assms nw]
  let ?mine = "my_book ord (engine w)"
  have "\<exists>s'. match_loop t (match_start t w1) = Inr s' \<and> loop_inv t (Suc t) ?mine s'
          \<and> match_step t s' = Break"
  proof (rule match_loop_invariant [where P = "loop_inv t (Suc t) ?mine"])
    show "loop_inv t (Suc t) ?mine (match_start t w1)" by (rule start(1))
    show "\<And>s s'. loop_inv t (Suc t) ?mine s \<Longrightarrow> match_step t s = Continue s'
            \<Longrightarrow> loop_inv t (Suc t) ?mine s'" by (rule loop_inv_step)
    show "\<And>s e. loop_inv t (Suc t) ?mine s \<Longrightarrow> match_step t s \<noteq> Raise e"
      by (rule loop_inv_no_raise)
  qed
  then obtain s' where s': "match_loop t (match_start t w1) = Inr s'" "loop_inv t (Suc t) ?mine s'"
    by blast
  obtain st' ob' tr' where [simp]: "s' = (st', ob', tr')" by (cases s') auto
  from s'(2) have li: "side_inv st' (Suc t) ob'" "side_inv st' (Suc t) ?mine"
    "is_bid ob' = (side (st' t) = ''sell'')" "is_bid ?mine = (side (st' t) \<noteq> ''sell'')"
    "\<not> in_book t ?mine"
    by (simp_all add: loop_inv_def)
  from assms have flags: "is_bid (bids (engine w))" "\<not> is_bid (asks (engine w))"
    by (simp_all add: world_inv_def)
  have add: "side_inv st' (Suc t) (side_add st' t ?mine)" if "0 < open_qty (st' t)"
    by (rule side_inv_add [OF li(2) _ li(5) that]) (use li(4) in auto)
  from process_order_result [of t w1 st' ob' tr'] s'(1) nw
  have res: "process_new_order ord w =
     Inr (if 0 < open_qty (st' t) then ''RESTING'' else ''FILLED'',
          w1\<lparr>store := st',
             engine := (if side ord = ''sell''
                then \<lparr>bids = ob',
                      asks = (if 0 < open_qty (st' t) then side_add st' t (asks (engine w))
                              else asks (engine w)),
                      trades = tr'\<rparr>
                else \<lparr>bids = (if 0 < open_qty (st' t) then side_add st' t (bids (engine w))
                              else bids (engine w)),
                      asks = ob', trades = tr'\<rparr>)\<rparr>)"
    by (simp add: process_new_order_def start(3,4))
  show ?thesis
  proof (cases "side ord = ''sell''")
    case True
    with li flags have "side (st' t) = ''sell''" "is_bid ob'" and m: "?mine = asks (engine w)"
      by (auto simp: my_book_def)
    with res True li add flags start(5) start(2) [symmetric] show ?thesis
      by (auto simp: world_inv_def)
  next
    case False
    with li flags have "side (st' t) \<noteq> ''sell''" "\<not> is_bid ob'" and m: "?mine = bids (engine w)"
      by (auto simp: my_book_def)
    with res False li add flags start(5) start(2) [symmetric] show ?thesis
      by (auto simp: world_inv_def)
  qed
qed

section \<open>Reachable worlds\<close>

inductive reachable_by :: "(Order \<Rightarrow> bool) \<Rightarrow> world \<Rightarrow> bool" for P where
  init: "reachable_by P world_init"
| step: "reachable_by P w \<Longrightarrow> P ord \<Longrightarrow> process_new_order ord w = Inr (res, w')
         \<Longrightarrow> reachable_by P w'"

lemma world_inv_init: "world_inv world_init"
  by (simp add: world_inv_def world_init_def MatchingEngine_init_def OrderBookSide_init_def
      side_inv_def)

lemma reachable_world_inv: "reachable_by P w \<Longrightarrow> world_inv w"
proof (induction rule: reachable_by.induct)
  case init
  show ?case by (rule world_inv_init)
next
  case (step w ord res w')
  with process_new_order_world_inv [of w ord] show ?case by auto
qed


section \<open>The states a matching loop passes through\<close>

definition match_reaches :: "ref \<Rightarrow> match_state \<Rightarrow> match_state \<Rightarrow> bool" where
  "match_reaches t = (\<lambda>s s'. match_step t s = Continue s')\<^sup>*\<^sup>*"

lemma match_reaches_refl [simp]: "match_reaches t s s"
  by (simp add: match_reaches_def)

lemma match_reaches_step:
  "match_step t s = Continue s1 \<Longrightarrow> match_reaches t s1 s' \<Longrightarrow> match_reaches t s s'"
  unfolding match_reaches_def by (rule converse_rtranclp_into_rtranclp)

lemma match_reaches_invariant:
  assumes "match_reaches t s s'" and "P s"
    and "\<And>a b. P a \<Longrightarrow> match_step t a = Continue b \<Longrightarrow> P b"
  shows "P s'"
  using assms(1,2) unfolding match_reaches_def
  by (induction rule: rtranclp_induct) (auto intro: assms(3))

lemma match_loop_reaches:
  "match_loop t s = Inr s' \<Longrightarrow> match_reaches t s s' \<and> match_step t s' = Break"
proof (induction "match_measure t s" arbitrary: s rule: less_induct)
  case less
  show ?case
  proof (cases "match_step t s")
    case Break
    with less.prems show ?thesis by (simp add: match_loop.simps)
  next
    case (Raise e)
    with less.prems show ?thesis by (simp add: match_loop.simps)
  next
    case (Continue s1)
    with less.prems have "match_loop t s1 = Inr s'" by (simp add: match_loop.simps [of t s])
    from less.hyps [OF match_step_decreases [OF Continue] this] Continue show ?thesis
      by (auto intro: match_reaches_step)
  qed
qed

lemma process_new_order_final:
  assumes "world_inv w" and "new_Order ord w = (t, w1)"
  obtains st' ob' tr' where
    "match_reaches t (match_start t w1) (st', ob', tr')"
    "match_step t (st', ob', tr') = Break"
    "process_new_order ord w =
       Inr (if 0 < open_qty (st' t) then ''RESTING'' else ''FILLED'',
          w1\<lparr>store := st',
             engine := (if side ord = ''sell''
                then \<lparr>bids = ob',
                      asks = (if 0 < open_qty (st' t) then side_add st' t (asks (engine w))
                              else asks (engine w)),
                      trades = tr'\<rparr>
                else \<lparr>bids = (if 0 < open_qty (st' t) then side_add st' t (bids (engine w))
                              else bids (engine w)),
                      asks = ob', trades = tr'\<rparr>)\<rparr>)"
proof -
  note start = loop_inv_start [OF assms]
  let ?mine = "my_book ord (engine w)"
  have "\<exists>s'. match_loop t (match_start t w1) = Inr s' \<and> loop_inv t (Suc t) ?mine s'
          \<and> match_step t s' = Break"
  proof (rule match_loop_invariant [where P = "loop_inv t (Suc t) ?mine"])
    show "loop_inv t (Suc t) ?mine (match_start t w1)" by (rule start(1))
    show "\<And>s s'. loop_inv t (Suc t) ?mine s \<Longrightarrow> match_step t s = Continue s'
            \<Longrightarrow> loop_inv t (Suc t) ?mine s'" by (rule loop_inv_step)
    show "\<And>s e. loop_inv t (Suc t) ?mine s \<Longrightarrow> match_step t s \<noteq> Raise e"
      by (rule loop_inv_no_raise)
  qed
  then obtain st' ob' tr' where ml: "match_loop t (match_start t w1) = Inr (st', ob', tr')"
    by (metis prod_cases3)
  from process_order_result [OF ml] assms(2)
  have "process_new_order ord w =
       Inr (if 0 < open_qty (st' t) then ''RESTING'' else ''FILLED'',
          w1\<lparr>store := st',
             engine := (if side ord = ''sell''
                then \<lparr>bids = ob',
                      asks = (if 0 < open_qty (st' t) then side_add st' t (asks (engine w))
                              else asks (engine w)),
                      trades = tr'\<rparr>
                else \<lparr>bids = (if 0 < open_qty (st' t) then side_add st' t (bids (engine w))
                              else bids (engine w)),
                      asks = ob', trades = tr'\<rparr>)\<rparr>)"
    by (simp add: process_new_order_def start(3,4))
  with match_loop_reaches [OF ml] that show ?thesis by blast
qed

section \<open>The book is not crossed\<close>

definition uncrossed :: "OrderBookSide \<Rightarrow> OrderBookSide \<Rightarrow> bool" where
  "uncrossed B A \<longleftrightarrow> (\<forall>b a. best_price B = Some b \<and> best_price A = Some a \<longrightarrow> b < a)"

definition pair_uncrossed :: "OrderBookSide \<Rightarrow> OrderBookSide \<Rightarrow> bool" where
  "pair_uncrossed ob mine \<longleftrightarrow> (if is_bid ob then uncrossed ob mine else uncrossed mine ob)"

lemma pair_uncrossed_pop:
  assumes "pair_uncrossed ob mine" and "sorted (price_heap ob)" and "price_heap ob = x # h"
    and "price_heap ob' = x # h \<or> price_heap ob' = h" and "is_bid ob' = is_bid ob"
  shows "pair_uncrossed ob' mine"
proof -
  have "signed_price False x \<le> signed_price False y \<and> signed_price True y \<le> signed_price True x"
    if "best_price ob' = Some (signed_price (is_bid ob) y)" for y
  proof -
    from that assms(3,4,5) have "y = x \<or> y \<in> set h"
      by (auto simp: best_price_def split: list.splits)
    with assms(2,3) have "x \<le> y" by auto
    then show ?thesis by (simp add: signed_price_def)
  qed
  moreover have "\<exists>y. c = signed_price (is_bid ob) y" for c
    by (rule exI [of _ "signed_price (is_bid ob) c"]) simp
  moreover have "best_price ob = Some (signed_price (is_bid ob) x)"
    using assms(3) by (simp add: best_price_def)
  ultimately show ?thesis
    using assms(1,5) unfolding pair_uncrossed_def uncrossed_def
    by (auto simp: signed_price_def split: if_splits) force+
qed


lemma match_step_Break_cross:
  "match_step t (st, ob, tr) = Break \<Longrightarrow> 0 < open_qty (st t) \<Longrightarrow> best_price ob = Some b
   \<Longrightarrow> \<not> is_match (st t) b"
  by (auto simp: match_step_def Let_def split: if_splits option.splits list.splits prod.splits)

definition valid_side :: "Order \<Rightarrow> bool" where
  "valid_side ord \<longleftrightarrow> side ord = ''buy'' \<or> side ord = ''sell''"

definition uncrossed_inv :: "ref \<Rightarrow> nat \<Rightarrow> Order \<Rightarrow> OrderBookSide \<Rightarrow> match_state \<Rightarrow> bool" where
  "uncrossed_inv t n ord mine = (\<lambda>(st, ob, tr).
     loop_inv t n mine (st, ob, tr) \<and> side (st t) = side ord \<and> pair_uncrossed ob mine)"

lemma uncrossed_inv_step:
  assumes "uncrossed_inv t n ord mine s" and "match_step t s = Continue s'"
  shows "uncrossed_inv t n ord mine s'"
proof -
  obtain st ob tr st' ob' tr' where [simp]: "s = (st, ob, tr)" "s' = (st', ob', tr')"
    by (cases s, cases s') auto
  from assms have li: "loop_inv t n mine (st, ob, tr)" and sd: "side (st t) = side ord"
    and pu: "pair_uncrossed ob mine" and step: "match_step t (st, ob, tr) = Continue (st', ob', tr')"
    by (simp_all add: uncrossed_inv_def)
  from li have so: "sorted (price_heap ob)" by (auto simp: loop_inv_def dest: side_inv_heap(1))
  from match_step_facts [OF li step] obtain x h maker rest k where
    f: "price_heap ob = x # h"
      "execute_trade maker t k (signed_price (is_bid ob) x) (st, tr) = (st', tr')"
      "ob' = (if open_qty (st' maker) = 0
            then (if rest = []
                  then ob\<lparr>price_heap := h,
                          price_levels := (price_levels ob)(signed_price (is_bid ob) x := None)\<rparr>
                  else ob\<lparr>price_levels := (price_levels ob)(signed_price (is_bid ob) x \<mapsto> rest)\<rparr>)
            else ob)"
      "loop_inv t n mine (st', ob', tr')"
    by metis
  from f(1,3) have "price_heap ob' = x # h \<or> price_heap ob' = h" "is_bid ob' = is_bid ob"
    by (auto split: if_splits)
  from pair_uncrossed_pop [OF pu so f(1) this] have "pair_uncrossed ob' mine" .
  moreover from execute_trade_fields [OF f(2), of t] sd have "side (st' t) = side ord" by simp
  ultimately show ?thesis using f(4) by (simp add: uncrossed_inv_def)
qed

lemma process_new_order_uncrossed:
  assumes wi: "world_inv w" and unc: "uncrossed (bids (engine w)) (asks (engine w))"
    and vs: "valid_side ord" and res: "process_new_order ord w = Inr (res, w')"
  shows "uncrossed (bids (engine w')) (asks (engine w'))"
proof -
  obtain t w1 where nw: "new_Order ord w = (t, w1)" by (cases "new_Order ord w") auto
  note start = loop_inv_start [OF wi nw]
  let ?mine = "my_book ord (engine w)"
  from wi have flags: "is_bid (bids (engine w))" "\<not> is_bid (asks (engine w))"
    by (simp_all add: world_inv_def)
  have "\<exists>s'. match_loop t (match_start t w1) = Inr s' \<and> uncrossed_inv t (Suc t) ord ?mine s'
          \<and> match_step t s' = Break"
  proof (rule match_loop_invariant [where P = "uncrossed_inv t (Suc t) ord ?mine"])
    show "uncrossed_inv t (Suc t) ord ?mine (match_start t w1)"
      using start(1,3,4) unc flags
      by (auto simp: uncrossed_inv_def match_start_def pair_uncrossed_def opposing_book_def my_book_def)
    show "\<And>s s'. uncrossed_inv t (Suc t) ord ?mine s \<Longrightarrow> match_step t s = Continue s'
            \<Longrightarrow> uncrossed_inv t (Suc t) ord ?mine s'" by (rule uncrossed_inv_step)
    show "\<And>s e. uncrossed_inv t (Suc t) ord ?mine s \<Longrightarrow> match_step t s \<noteq> Raise e"
      using loop_inv_no_raise by (auto simp: uncrossed_inv_def)
  qed
  then obtain st' ob' tr' where ml: "match_loop t (match_start t w1) = Inr (st', ob', tr')"
    and ui: "uncrossed_inv t (Suc t) ord ?mine (st', ob', tr')"
    and br: "match_step t (st', ob', tr') = Break"
    by (metis prod_cases3)
  from ui have li: "is_bid ob' = (side (st' t) = ''sell'')" and sd: "side (st' t) = side ord"
    and pu: "pair_uncrossed ob' ?mine"
    by (simp_all add: uncrossed_inv_def loop_inv_def)
  from process_order_result [OF ml] nw res
  have w': "w' = w1\<lparr>store := st',
             engine := (if side ord = ''sell''
                then \<lparr>bids = ob',
                      asks = (if 0 < open_qty (st' t) then side_add st' t (asks (engine w))
                              else asks (engine w)),
                      trades = tr'\<rparr>
                else \<lparr>bids = (if 0 < open_qty (st' t) then side_add st' t (bids (engine w))
                              else bids (engine w)),
                      asks = ob', trades = tr'\<rparr>)\<rparr>"
    by (auto simp: process_new_order_def start(3,4))
  show ?thesis
  proof (cases "side ord = ''sell''")
    case True
    with li sd pu have u: "uncrossed ob' (asks (engine w))"
      by (simp add: pair_uncrossed_def my_book_def)
    have "uncrossed ob' (side_add st' t (asks (engine w)))" if pos: "0 < open_qty (st' t)"
      unfolding uncrossed_def
    proof (intro allI impI, elim conjE)
      fix b a assume b: "best_price ob' = Some b"
        and a: "best_price (side_add st' t (asks (engine w))) = Some a"
      from best_price_side_add [OF a] show "b < a"
      proof
        assume "a = price (st' t)"
        moreover from match_step_Break_cross [OF br pos b] sd True have "b < price (st' t)"
          by (simp add: is_match_def)
        ultimately show ?thesis by simp
      next
        assume "best_price (asks (engine w)) = Some a"
        with u b show ?thesis by (auto simp: uncrossed_def)
      qed
    qed
    with u True w' show ?thesis by simp
  next
    case False
    with vs have buy: "side ord = ''buy''" by (simp add: valid_side_def)
    from False li sd pu have u: "uncrossed (bids (engine w)) ob'"
      by (simp add: pair_uncrossed_def my_book_def)
    have "uncrossed (side_add st' t (bids (engine w))) ob'" if pos: "0 < open_qty (st' t)"
      unfolding uncrossed_def
    proof (intro allI impI, elim conjE)
      fix b a assume a: "best_price ob' = Some a"
        and b: "best_price (side_add st' t (bids (engine w))) = Some b"
      from best_price_side_add [OF b] show "b < a"
      proof
        assume "b = price (st' t)"
        moreover from match_step_Break_cross [OF br pos a] sd buy have "price (st' t) < a"
          by (simp add: is_match_def)
        ultimately show ?thesis by simp
      next
        assume "best_price (bids (engine w)) = Some b"
        with u a show ?thesis by (auto simp: uncrossed_def)
      qed
    qed
    with u False w' show ?thesis by simp
  qed
qed


lemma uncrossed_init: "uncrossed (bids (engine world_init)) (asks (engine world_init))"
  by (simp add: uncrossed_def world_init_def MatchingEngine_init_def OrderBookSide_init_def
      best_price_def)

lemma reachable_uncrossed:
  "reachable_by valid_side w \<Longrightarrow> uncrossed (bids (engine w)) (asks (engine w))"
proof (induction rule: reachable_by.induct)
  case init
  show ?case by (rule uncrossed_init)
next
  case (step w ord res w')
  from process_new_order_uncrossed [OF reachable_world_inv [OF step.hyps(1)] step.IH step.hyps(2,3)]
  show ?case .
qed

lemma run_orders_reachable:
  "reachable_by P w \<Longrightarrow> list_all P os \<Longrightarrow> run_orders os w = Inr w' \<Longrightarrow> reachable_by P w'"
proof (induction os arbitrary: w)
  case Nil
  then show ?case by simp
next
  case (Cons ord os)
  from Cons.prems(3) obtain res w1 where 1: "process_new_order ord w = Inr (res, w1)"
    and 2: "run_orders os w1 = Inr w'"
    by (auto split: sum.splits)
  from Cons.prems(1,2) 1 have "reachable_by P w1" by (auto intro: reachable_by.step)
  from Cons.IH [OF this _ 2] Cons.prems(2) show ?case by simp
qed

lemma two_sells_reachable:
  assumes "P (mk_Order 1 ''sell'' 101 100 1000)" and "P (mk_Order 2 ''sell'' 101 50 1001)"
  shows "reachable_by P two_sells"
  by (rule run_orders_reachable [OF reachable_by.init _ two_sells_run]) (simp add: assms)

text \<open>
  C2. From a book reached from the empty book by \<open>process_order\<close> calls on new orders
  whose side is buy or sell, a further such call returns, and after it the best bid is
  strictly below the best ask whenever both sides have a best price.
\<close>

theorem no_crossed_book:
  assumes "reachable_by valid_side w" and "valid_side ord"
  shows "\<exists>res w'. process_new_order ord w = Inr (res, w')
           \<and> (\<forall>b a. best_price (bids (engine w')) = Some b \<and> best_price (asks (engine w')) = Some a
                 \<longrightarrow> b < a)"
proof -
  note wi = reachable_world_inv [OF assms(1)]
  from process_new_order_world_inv [OF wi, of ord] obtain res w'
    where r: "process_new_order ord w = Inr (res, w')" by blast
  from process_new_order_uncrossed [OF wi reachable_uncrossed [OF assms(1)] assms(2) r] r
  show ?thesis by (auto simp: uncrossed_def)
qed

theorem no_crossed_book_witness:
  "reachable_by valid_side two_sells \<and> valid_side buy_7
   \<and> (\<exists>w'. process_new_order buy_7 two_sells = Inr (''RESTING'', w')
         \<and> best_price (bids (engine w')) = Some 100
         \<and> best_price (asks (engine w')) = Some 101)
   \<and> (100 :: real) < 101"
proof -
  have r: "reachable_by valid_side two_sells"
    by (rule two_sells_reachable) (simp_all add: valid_side_def mk_Order_def)
  have v: "valid_side buy_7" by (simp add: valid_side_def buy_7_def mk_Order_def)
  from no_crossed_book [OF r v] obtain res w' where
    p: "process_new_order buy_7 two_sells = Inr (res, w')"
    and u: "\<And>b a. best_price (bids (engine w')) = Some b \<Longrightarrow> best_price (asks (engine w')) = Some a
              \<Longrightarrow> b < a"
    by blast
  have e: "fst (projr (process_new_order buy_7 two_sells)) = ''RESTING''"
    "best_price (bids (engine (snd (projr (process_new_order buy_7 two_sells))))) = Some 100"
    "best_price (asks (engine (snd (projr (process_new_order buy_7 two_sells))))) = Some 101"
    by (simp_all add: buy_7_def two_sells_def eval_defs match_loop.simps)
  with p have "res = ''RESTING''" "best_price (bids (engine w')) = Some 100"
    "best_price (asks (engine w')) = Some 101" by simp_all
  with p u [of 100 101] r v show ?thesis by auto
qed


text \<open>
  The sides are strings, and the book an order goes to is chosen by \<open>side == 'sell'\<close>
  alone while a match needs \<open>'buy'\<close> or \<open>'sell'\<close>: an order with any other side string
  is never matched and rests in the bids, whatever the asks hold. The theorem above is
  about orders whose side is buy or sell, as the data model has it.
\<close>

lemma other_side_rests_unmatched:
  "fst (projr (process_new_order (mk_Order 2 ''BUY'' 105 10 1)
                 (projr (run_orders [mk_Order 1 ''sell'' 100 10 0] world_init)))) = ''RESTING''
   \<and> trades (engine (snd (projr (process_new_order (mk_Order 2 ''BUY'' 105 10 1)
                 (projr (run_orders [mk_Order 1 ''sell'' 100 10 0] world_init)))))) = []"
  by (simp add: eval_defs match_loop.simps)

section \<open>The demo scenario\<close>

text \<open>
  C3. From the empty engine, the sells #1 100@101.00, #2 50@101.00, #3 200@102.00 and then
  the buy #99 120@101.50 give exactly two trades, 100@101.00 against maker #1 and then
  20@101.00 against maker #2; #1 ends fully filled, #2 keeps an open quantity of 30, #99
  ends with status FILLED and the call returns FILLED; the queue position of #2, asked
  before the buy, is 100. The four order objects are the references 0 to 3, in the
  order of their creation.
\<close>

theorem end_to_end_scenario:
  "\<exists>w. engine_demo = Inr (100, ''FILLED'', w)
     \<and> trades (engine w) =
         [\<lparr>trade_price = 101, trade_qty = 100, maker_order_id = 1, taker_order_id = 99\<rparr>,
          \<lparr>trade_price = 101, trade_qty = 20, maker_order_id = 2, taker_order_id = 99\<rparr>]
     \<and> orders (asks (engine w)) 1 = Some 0
     \<and> open_qty (store w 0) = 0 \<and> status (store w 0) = ''FILLED''
     \<and> orders (asks (engine w)) 2 = Some 1
     \<and> open_qty (store w 1) = 30
     \<and> oid (store w 3) = 99 \<and> status (store w 3) = ''FILLED''
     \<and> open_qty (store w 3) = 0"
  unfolding engine_demo_def
  by (simp add: eval_defs match_loop.simps)


section \<open>Time priority within a level\<close>

definition precedes :: "ref \<Rightarrow> ref \<Rightarrow> OrderBookSide \<Rightarrow> bool" where
  "precedes r1 r2 S \<longleftrightarrow> (\<exists>p xs ys zs. price_levels S p = Some (xs @ r1 # ys @ r2 # zs))"

definition fifo_inv ::
  "ref \<Rightarrow> nat \<Rightarrow> OrderBookSide \<Rightarrow> ref \<Rightarrow> ref \<Rightarrow> int \<Rightarrow> match_state \<Rightarrow> bool" where
  "fifo_inv t n mine r1 r2 f0 = (\<lambda>(st, ob, tr).
     loop_inv t n mine (st, ob, tr) \<and> r1 \<noteq> t \<and> r2 \<noteq> t
     \<and> ((filled_qty (st r2) = f0 \<and> (precedes r1 r2 ob \<or> precedes r1 r2 mine))
         \<or> open_qty (st r1) = 0))"

text \<open>An order added to a level comes after every order already in its queue.\<close>

lemma side_add_precedes:
  assumes "price_levels S (price (st r2)) = Some q" and "r1 \<in> set q"
  shows "precedes r1 r2 (side_add st r2 S)"
proof -
  from assms(2) obtain xs ys where "q = xs @ r1 # ys" by (auto dest: split_list)
  with assms(1) have "price_levels (side_add st r2 S) (price (st r2)) = Some (xs @ r1 # ys @ r2 # [])"
    by (simp add: side_add_def Let_def level_def)
  then show ?thesis unfolding precedes_def by blast
qed

lemma precedes_in_book: "precedes r1 r2 S \<Longrightarrow> in_book r1 S \<and> in_book r2 S"
  unfolding precedes_def in_book_def by force

lemma fifo_step:
  assumes inv: "fifo_inv t n mine r1 r2 f0 (st, ob, tr)"
    and step: "match_step t (st, ob, tr) = Continue (st', ob', tr')"
  shows "fifo_inv t n mine r1 r2 f0 (st', ob', tr')"
proof -
  from inv have li: "loop_inv t n mine (st, ob, tr)" and nt: "r1 \<noteq> t" "r2 \<noteq> t"
    and dis: "(filled_qty (st r2) = f0 \<and> (precedes r1 r2 ob \<or> precedes r1 r2 mine))
         \<or> open_qty (st r1) = 0"
    by (simp_all add: fifo_inv_def)
  from li have io: "side_inv st n ob" by (simp add: loop_inv_def)
  from match_step_facts [OF li step] obtain x h maker rest k where
    f: "price_heap ob = x # h"
      "price_levels ob (signed_price (is_bid ob) x) = Some (maker # rest)"
      "maker \<noteq> t" "\<not> in_book maker mine"
      "execute_trade maker t k (signed_price (is_bid ob) x) (st, tr) = (st', tr')"
      "ob' = (if open_qty (st' maker) = 0
            then (if rest = []
                  then ob\<lparr>price_heap := h,
                          price_levels := (price_levels ob)(signed_price (is_bid ob) x := None)\<rparr>
                  else ob\<lparr>price_levels := (price_levels ob)(signed_price (is_bid ob) x \<mapsto> rest)\<rparr>)
            else ob)"
      "loop_inv t n mine (st', ob', tr')"
    by metis
  let ?bp = "signed_price (is_bid ob) x"
  note other = execute_trade_other [OF f(5)]
  from side_inv_level(3) [OF io f(2), of maker] have om: "0 < open_qty (st maker)" by simp
  have goal: "(filled_qty (st' r2) = f0 \<and> (precedes r1 r2 ob' \<or> precedes r1 r2 mine))
         \<or> open_qty (st' r1) = 0"
    using dis
  proof
    assume z: "open_qty (st r1) = 0"
    with om have "r1 \<noteq> maker" by auto
    with other [OF this nt(1)] z show ?thesis by simp
  next
    assume a: "filled_qty (st r2) = f0 \<and> (precedes r1 r2 ob \<or> precedes r1 r2 mine)"
    then have f0: "filled_qty (st r2) = f0" by simp
    from a have "precedes r1 r2 ob \<or> precedes r1 r2 mine" by simp
    then show ?thesis
    proof
      assume pm: "precedes r1 r2 mine"
      with precedes_in_book f(4) have "r2 \<noteq> maker" by blast
      with other [OF this nt(2)] f0 pm show ?thesis by simp
    next
      assume "precedes r1 r2 ob"
      then obtain p xs ys zs where lv: "price_levels ob p = Some (xs @ r1 # ys @ r2 # zs)"
        by (auto simp: precedes_def)
      from side_inv_level(2) [OF io lv] have d: "distinct (xs @ r1 # ys @ r2 # zs)" .
      have r2m: "r2 \<noteq> maker"
      proof
        assume e: "r2 = maker"
        from side_inv_level(3) [OF io lv, of r2] have "price (st r2) = p" by simp
        moreover from side_inv_level(3) [OF io f(2), of maker] have "price (st maker) = ?bp" by simp
        ultimately have "p = ?bp" using e by simp
        with lv f(2) have "maker # rest = xs @ r1 # ys @ r2 # zs" by simp
        with e d show False by (cases xs) auto
      qed
      with other [OF this nt(2)] f0 have f0': "filled_qty (st' r2) = f0" by simp
      show ?thesis
      proof (cases "open_qty (st' maker) = 0")
        case False
        with f(6) lv have "precedes r1 r2 ob'" by (auto simp: precedes_def)
        with f0' show ?thesis by simp
      next
        case True
        show ?thesis
        proof (cases "p = ?bp")
          case False
          with True f(6) lv have "price_levels ob' p = Some (xs @ r1 # ys @ r2 # zs)"
            by (auto split: if_splits)
          then have "precedes r1 r2 ob'" unfolding precedes_def by blast
          with f0' show ?thesis by simp
        next
          case pb: True
          with lv f(2) have eq: "maker # rest = xs @ r1 # ys @ r2 # zs" by simp
          show ?thesis
          proof (cases xs)
            case Nil
            with eq have "maker = r1" by simp
            with True show ?thesis by simp
          next
            case (Cons y xs')
            with eq have rest: "rest = xs' @ r1 # ys @ r2 # zs" by simp
            then have "rest \<noteq> []" by simp
            with True f(6) rest have "price_levels ob' ?bp = Some (xs' @ r1 # ys @ r2 # zs)"
              by simp
            then have "precedes r1 r2 ob'" unfolding precedes_def by blast
            with f0' show ?thesis by simp
          qed
        qed
      qed
    qed
  qed
  with f(7) nt show ?thesis by (simp add: fifo_inv_def)
qed

definition buy_99_start :: match_state where
  "buy_99_start = match_start 2 (snd (new_Order buy_99 two_sells))"

definition buy_99_end :: match_state where
  "buy_99_end = projr (match_loop 2 buy_99_start)"

lemma buy_99_new: "new_Order buy_99 two_sells = (2, snd (new_Order buy_99 two_sells))"
  by (simp add: new_Order_def two_sells_next)

lemma buy_99_loop: "match_loop 2 buy_99_start = Inr buy_99_end"
  by (simp add: buy_99_end_def buy_99_start_def buy_99_def two_sells_def match_start_def
      eval_defs match_loop.simps)

lemma buy_99_reaches: "match_reaches 2 buy_99_start buy_99_end"
  using match_loop_reaches [OF buy_99_loop] by simp

lemma buy_99_end_store:
  "filled_qty (fst buy_99_end 0) = 100" "qty (fst buy_99_end 0) = 100"
  "filled_qty (fst buy_99_end (Suc 0)) = 20" "filled_qty (fst buy_99_end 2) = 120"
  by (simp_all add: buy_99_end_def buy_99_start_def buy_99_def two_sells_def match_start_def
      eval_defs match_loop.simps)

text \<open>
  C4. In a book reached from the empty book by \<open>process_order\<close> calls, take two orders of
  one price level, the first ahead of the second in the queue. While any new order is
  matched, at every pass of the loop and when the call returns, the second order has
  been matched only if the first is fully filled.
\<close>

theorem price_time_priority:
  assumes "reachable_by (\<lambda>ord. True) w"
    and "precedes r1 r2 (bids (engine w)) \<or> precedes r1 r2 (asks (engine w))"
    and "new_Order ord w = (t, w1)"
    and "match_reaches t (match_start t w1) s"
  shows "(filled_qty (fst s r2) = filled_qty (store w r2) \<or> open_qty (fst s r1) = 0)
         \<and> (\<forall>res w'. process_new_order ord w = Inr (res, w') \<longrightarrow>
               filled_qty (store w' r2) = filled_qty (store w r2) \<or> open_qty (store w' r1) = 0)"
proof -
  note wi = reachable_world_inv [OF assms(1)]
  note start = loop_inv_start [OF wi assms(3)]
  let ?mine = "my_book ord (engine w)"
  let ?P = "fifo_inv t (Suc t) ?mine r1 r2 (filled_qty (store w r2))"
  from wi start(2) have si: "side_inv (store w) t (bids (engine w))" "side_inv (store w) t (asks (engine w))"
    by (simp_all add: world_inv_def)
  from assms(2) precedes_in_book have "(in_book r1 (bids (engine w)) \<and> in_book r2 (bids (engine w)))
      \<or> (in_book r1 (asks (engine w)) \<and> in_book r2 (asks (engine w)))" by blast
  with in_book_less si have lt: "r1 < t" "r2 < t" by blast+
  from assms(3) have "store w1 = (store w)(t := ord)" by (auto simp: new_Order_def)
  with lt have same: "store w1 r2 = store w r2" by simp
  have P0: "?P (match_start t w1)"
    using start(1,3,4) lt assms(2) same
    by (auto simp: fifo_inv_def match_start_def opposing_book_def my_book_def)
  have Pstep: "?P b" if "?P a" "match_step t a = Continue b" for a b
    using that fifo_step [of t "Suc t" ?mine r1 r2] by (cases a, cases b) auto
  have reach: "?P s'" if "match_reaches t (match_start t w1) s'" for s'
    by (rule match_reaches_invariant [OF that, where P = ?P]) (use P0 Pstep in auto)
  have 1: "filled_qty (fst s r2) = filled_qty (store w r2) \<or> open_qty (fst s r1) = 0"
    using reach [OF assms(4)] by (cases s) (auto simp: fifo_inv_def)
  have 2: "filled_qty (store w' r2) = filled_qty (store w r2) \<or> open_qty (store w' r1) = 0"
    if res: "process_new_order ord w = Inr (res, w')" for res w'
  proof -
    from process_new_order_final [OF wi assms(3)] obtain st' ob' tr' where
      f: "match_reaches t (match_start t w1) (st', ob', tr')"
        "process_new_order ord w =
         Inr (if 0 < open_qty (st' t) then ''RESTING'' else ''FILLED'',
          w1\<lparr>store := st',
             engine := (if side ord = ''sell''
                then \<lparr>bids = ob',
                      asks = (if 0 < open_qty (st' t) then side_add st' t (asks (engine w))
                              else asks (engine w)),
                      trades = tr'\<rparr>
                else \<lparr>bids = (if 0 < open_qty (st' t) then side_add st' t (bids (engine w))
                              else bids (engine w)),
                      asks = ob', trades = tr'\<rparr>)\<rparr>)"
      by metis
    from f(2) res have "store w' = st'" by auto
    with reach [OF f(1)] show ?thesis by (auto simp: fifo_inv_def)
  qed
  from 1 2 show ?thesis by blast
qed

theorem price_time_priority_witness:
  "reachable_by (\<lambda>ord. True) two_sells
   \<and> precedes 0 1 (asks (engine two_sells))
   \<and> new_Order buy_99 two_sells = (2, snd (new_Order buy_99 two_sells))
   \<and> match_reaches 2 buy_99_start buy_99_end
   \<and> filled_qty (store two_sells 1) = 0
   \<and> filled_qty (fst buy_99_end 1) = 20
   \<and> open_qty (fst buy_99_end 0) = 0"
proof -
  have r: "reachable_by (\<lambda>ord. True) two_sells" by (rule two_sells_reachable) simp_all
  have p: "precedes 0 1 (bids (engine two_sells)) \<or> precedes 0 1 (asks (engine two_sells))"
    unfolding precedes_def using two_sells_level by (intro disjI2 exI [of _ 101] exI [of _ "[]"]) simp
  have p': "precedes 0 1 (asks (engine two_sells))"
    unfolding precedes_def using two_sells_level by (intro exI [of _ 101] exI [of _ "[]"]) simp
  have f0: "filled_qty (store two_sells 1) = 0" by (simp add: two_sells_store mk_Order_def)
  from price_time_priority [OF r p buy_99_new, of buy_99_end] buy_99_reaches
  have "filled_qty (fst buy_99_end 1) = filled_qty (store two_sells 1) \<or> open_qty (fst buy_99_end 0) = 0"
    by (simp add: buy_99_start_def)
  with f0 buy_99_end_store(3) have "open_qty (fst buy_99_end 0) = 0" by simp
  with r p' buy_99_new buy_99_reaches f0 buy_99_end_store(3) show ?thesis by simp
qed

section \<open>Quantities\<close>

definition bounded :: "Order \<Rightarrow> bool" where
  "bounded ord \<longleftrightarrow> 0 \<le> filled_qty ord \<and> filled_qty ord \<le> qty ord"

definition all_bounded :: "nat \<Rightarrow> store \<Rightarrow> bool" where
  "all_bounded n st \<longleftrightarrow> (\<forall>r<n. bounded (st r))"

definition recorded_trade :: "ref \<Rightarrow> match_state \<Rightarrow> match_state \<Rightarrow> bool" where
  "recorded_trade t = (\<lambda>(st, ob, tr) (st', ob', tr').
     \<exists>maker k p. maker \<noteq> t
       \<and> tr' = tr @ [\<lparr>trade_price = p, trade_qty = k, maker_order_id = oid (st maker),
                      taker_order_id = oid (st t)\<rparr>]
       \<and> filled_qty (st' maker) = filled_qty (st maker) + k
       \<and> filled_qty (st' t) = filled_qty (st t) + k
       \<and> (\<forall>r. r \<noteq> maker \<and> r \<noteq> t \<longrightarrow> st' r = st r)
       \<and> all_bounded (Suc t) (add_filled maker k st))"

definition bounded_inv :: "ref \<Rightarrow> nat \<Rightarrow> OrderBookSide \<Rightarrow> match_state \<Rightarrow> bool" where
  "bounded_inv t n mine = (\<lambda>(st, ob, tr). loop_inv t n mine (st, ob, tr) \<and> all_bounded n st)"

lemma bounded_step:
  assumes inv: "bounded_inv t (Suc t) mine (st, ob, tr)"
    and step: "match_step t (st, ob, tr) = Continue (st', ob', tr')"
  shows "bounded_inv t (Suc t) mine (st', ob', tr')"
    and "recorded_trade t (st, ob, tr) (st', ob', tr')"
proof -
  from inv have li: "loop_inv t (Suc t) mine (st, ob, tr)" and ab: "all_bounded (Suc t) st"
    by (simp_all add: bounded_inv_def)
  from match_step_facts [OF li step] obtain x h maker rest k where
    f: "maker \<noteq> t" "maker < Suc t"
      "k = min (open_qty (st t)) (open_qty (st maker))" "0 < k"
      "execute_trade maker t k (signed_price (is_bid ob) x) (st, tr) = (st', tr')"
      "loop_inv t (Suc t) mine (st', ob', tr')"
    by metis
  note other = execute_trade_other [OF f(5)]
  note fields = execute_trade_fields [OF f(5)]
  note filled = execute_trade_filled [OF f(5) f(1)]
  from ab f(2) have bm: "bounded (st maker)" and bt: "bounded (st t)"
    by (simp_all add: all_bounded_def)
  from f(3) have kle: "k \<le> open_qty (st t)" "k \<le> open_qty (st maker)" by simp_all
  have mid: "all_bounded (Suc t) (add_filled maker k st)"
    using ab bm kle(2) f(4) by (auto simp: all_bounded_def add_filled_def bounded_def open_qty_def)
  have "bounded (st' r)" if "r < Suc t" for r
  proof (cases "r = maker \<or> r = t")
    case True
    with bm bt kle f(4) filled fields [of maker] fields [of t] show ?thesis
      by (auto simp: bounded_def open_qty_def)
  next
    case False
    with other [of r] ab that show ?thesis by (simp add: all_bounded_def)
  qed
  with f(6) show "bounded_inv t (Suc t) mine (st', ob', tr')"
    by (simp add: bounded_inv_def all_bounded_def)
  show "recorded_trade t (st, ob, tr) (st', ob', tr')"
    unfolding recorded_trade_def using f(1) filled other mid execute_trade_trades [OF f(5)]
    by auto
qed


lemma bounded_inv_start:
  assumes "world_inv w" and "all_bounded (next_ref w) (store w)" and "bounded ord"
    and "new_Order ord w = (t, w1)"
  shows "bounded_inv t (Suc t) (my_book ord (engine w)) (match_start t w1)"
proof -
  note start = loop_inv_start [OF assms(1,4)]
  from assms(4) have "store w1 = (store w)(t := ord)" by (auto simp: new_Order_def)
  with assms(2,3) start(2) have "all_bounded (Suc t) (store w1)"
    by (auto simp: all_bounded_def less_Suc_eq)
  with start(1) show ?thesis by (simp add: bounded_inv_def match_start_def)
qed

lemma bounded_inv_reaches:
  assumes "bounded_inv t (Suc t) mine s" and "match_reaches t s s'"
  shows "bounded_inv t (Suc t) mine s'"
proof (rule match_reaches_invariant [OF assms(2), where P = "bounded_inv t (Suc t) mine"])
  show "bounded_inv t (Suc t) mine s" by (rule assms(1))
  show "bounded_inv t (Suc t) mine b"
    if "bounded_inv t (Suc t) mine a" "match_step t a = Continue b" for a b
    using that bounded_step(1) [of t mine] by (cases a, cases b) auto
qed

lemma process_new_order_bounded:
  assumes wi: "world_inv w" and ab: "all_bounded (next_ref w) (store w)" and b: "bounded ord"
    and res: "process_new_order ord w = Inr (res, w')"
  shows "all_bounded (next_ref w') (store w')"
proof -
  obtain t w1 where nw: "new_Order ord w = (t, w1)" by (cases "new_Order ord w") auto
  from process_new_order_final [OF wi nw] obtain st' ob' tr' where
    f: "match_reaches t (match_start t w1) (st', ob', tr')"
      "process_new_order ord w =
       Inr (if 0 < open_qty (st' t) then ''RESTING'' else ''FILLED'',
          w1\<lparr>store := st',
             engine := (if side ord = ''sell''
                then \<lparr>bids = ob',
                      asks = (if 0 < open_qty (st' t) then side_add st' t (asks (engine w))
                              else asks (engine w)),
                      trades = tr'\<rparr>
                else \<lparr>bids = (if 0 < open_qty (st' t) then side_add st' t (bids (engine w))
                              else bids (engine w)),
                      asks = ob', trades = tr'\<rparr>)\<rparr>)"
    by metis
  from bounded_inv_reaches [OF bounded_inv_start [OF wi ab b nw] f(1)]
  have "all_bounded (Suc t) st'" by (simp add: bounded_inv_def)
  moreover from f(2) res have "store w' = st'" "next_ref w' = next_ref w1" by auto
  moreover from nw have "next_ref w1 = Suc t" by (auto simp: new_Order_def)
  ultimately show ?thesis by simp
qed

lemma reachable_bounded:
  "reachable_by bounded w \<Longrightarrow> all_bounded (next_ref w) (store w)"
proof (induction rule: reachable_by.induct)
  case init
  show ?case by (simp add: all_bounded_def world_init_def)
next
  case (step w ord res w')
  from process_new_order_bounded [OF reachable_world_inv [OF step.hyps(1)] step.IH step.hyps(2,3)]
  show ?case .
qed

lemma buy_99_first_step:
  "match_step 2 buy_99_start \<noteq> Break"
  by (simp add: buy_99_start_def buy_99_def two_sells_def match_start_def eval_defs match_loop.simps)

text \<open>
  C5. In a book reached from the empty book by \<open>process_order\<close> calls on new orders with
  0 \<le> filled \<le> total, every order has 0 \<le> filled \<le> total; so has every order in every
  state the matching loop of a further such call passes through, and between the two
  increments of a trade. Every pass that goes on records exactly one trade, between a
  maker other than the taker and the taker, and adds the trade's quantity to the filled
  quantity of each of the two, leaving every other order as it was; no pass raises.
\<close>

theorem quantity_conservation:
  assumes "reachable_by bounded w" and "bounded ord" and "new_Order ord w = (t, w1)"
    and "match_reaches t (match_start t w1) s"
  shows "all_bounded (next_ref w) (store w)
         \<and> all_bounded (Suc t) (fst s)
         \<and> (case match_step t s of
              Continue s' \<Rightarrow> recorded_trade t s s' \<and> all_bounded (Suc t) (fst s')
            | Break \<Rightarrow> True
            | Raise e \<Rightarrow> False)"
proof -
  note wi = reachable_world_inv [OF assms(1)]
  note ab = reachable_bounded [OF assms(1)]
  let ?mine = "my_book ord (engine w)"
  from bounded_inv_reaches [OF bounded_inv_start [OF wi ab assms(2,3)] assms(4)]
  have bi: "bounded_inv t (Suc t) ?mine s" .
  obtain st ob tr where s: "s = (st, ob, tr)" by (cases s) auto
  from bi s have 2: "all_bounded (Suc t) (fst s)" by (simp add: bounded_inv_def)
  have 3: "(case match_step t s of
              Continue s' \<Rightarrow> recorded_trade t s s' \<and> all_bounded (Suc t) (fst s')
            | Break \<Rightarrow> True
            | Raise e \<Rightarrow> False)"
  proof (cases "match_step t s")
    case Break
    then show ?thesis by simp
  next
    case (Raise e)
    from bi s have "loop_inv t (Suc t) ?mine s" by (simp add: bounded_inv_def)
    with loop_inv_no_raise Raise show ?thesis by blast
  next
    case (Continue s')
    obtain st' ob' tr' where s': "s' = (st', ob', tr')" by (cases s') auto
    from bounded_step [of t ?mine st ob tr st' ob' tr'] bi Continue s s'
    show ?thesis by (simp add: bounded_inv_def)
  qed
  from ab 2 3 show ?thesis by blast
qed


theorem quantity_conservation_witness:
  "reachable_by bounded two_sells \<and> bounded buy_99
   \<and> new_Order buy_99 two_sells = (2, snd (new_Order buy_99 two_sells))
   \<and> match_reaches 2 buy_99_start buy_99_start
   \<and> all_bounded 2 (store two_sells)
   \<and> all_bounded 3 (fst buy_99_start)
   \<and> (\<exists>s'. match_step 2 buy_99_start = Continue s' \<and> recorded_trade 2 buy_99_start s'
           \<and> all_bounded 3 (fst s'))"
proof -
  have r: "reachable_by bounded two_sells"
    by (rule two_sells_reachable) (simp_all add: bounded_def mk_Order_def)
  have b: "bounded buy_99" by (simp add: bounded_def buy_99_def mk_Order_def)
  have m: "match_reaches 2 (match_start 2 (snd (new_Order buy_99 two_sells))) buy_99_start"
    by (simp add: buy_99_start_def)
  from quantity_conservation [OF r b buy_99_new m]
  have q: "all_bounded (next_ref two_sells) (store two_sells)"
    "all_bounded (Suc 2) (fst buy_99_start)"
    "(case match_step 2 buy_99_start of
        Continue s' \<Rightarrow> recorded_trade 2 buy_99_start s' \<and> all_bounded (Suc 2) (fst s')
      | Break \<Rightarrow> True
      | Raise e \<Rightarrow> False)"
    by blast+
  from q(3) buy_99_first_step
  have "\<exists>s'. match_step 2 buy_99_start = Continue s' \<and> recorded_trade 2 buy_99_start s'
           \<and> all_bounded 3 (fst s')"
    by (cases "match_step 2 buy_99_start") (simp_all add: eval_nat_numeral)
  moreover from q(1,2) have "all_bounded 2 (store two_sells)" "all_bounded 3 (fst buy_99_start)"
    by (simp_all add: two_sells_next eval_nat_numeral)
  ultimately show ?thesis using r b buy_99_new by simp
qed

section \<open>Queue positions\<close>

lemma qty_ahead_loop_prefix:
  "\<forall>r\<in>set pre. oid (st r) \<noteq> i \<Longrightarrow> oid (st r0) = i \<Longrightarrow>
   qty_ahead_loop st i acc (pre @ r0 # post) = acc + sum_list (map (\<lambda>r. open_qty (st r)) pre)"
  by (induction pre arbitrary: acc) auto

text \<open>
  For an order that rests in its level's queue, behind orders of other ids, the result is
  the sum of the open quantities ahead of it; for an id missing from \<open>orders\<close> it is -1.
\<close>

lemma get_queue_position_resting:
  assumes "orders S i = Some r0" and "oid (st r0) = i"
    and "price_levels S (price (st r0)) = Some (pre @ r0 # post)"
    and "\<forall>r\<in>set pre. oid (st r) \<noteq> i"
  shows "get_queue_position st S i = (sum_list (map (\<lambda>r. open_qty (st r)) pre), S)"
  using assms
  by (simp add: get_queue_position_def Let_def level_def touch_def qty_ahead_loop_prefix)

lemma get_queue_position_unknown:
  "orders S i = None \<Longrightarrow> get_queue_position st S i = (- 1, S)"
  by (simp add: get_queue_position_def)

definition stale_id_world :: world where
  "stale_id_world =
     projr (run_orders [mk_Order 1 ''sell'' 101 100 1000, mk_Order 9 ''buy'' 101 100 1001,
                        mk_Order 2 ''sell'' 101 50 1002] world_init)"

text \<open>
  C6. \<open>get_queue_position\<close> is to return the open quantity ahead of a known order and a
  not-found signal otherwise, never a silent wrong answer. A filled order is popped from
  its queue but stays in \<open>orders\<close>: after sell #1 100@101, buy #9 100@101 and sell #2
  50@101, order #1 is filled and only #2 rests at 101, yet the position reported for #1
  is 50, the open quantity of an order that arrived after it.
\<close>

theorem queue_position_of_filled_order:
  "orders (asks (engine stale_id_world)) 1 = Some 0
   \<and> status (store stale_id_world 0) = ''FILLED''
   \<and> price_levels (asks (engine stale_id_world)) 101 = Some [2]
   \<and> oid (store stale_id_world 2) = 2
   \<and> fst (get_queue_position (store stale_id_world) (asks (engine stale_id_world)) 1) = 50"
  by (simp add: stale_id_world_def eval_defs match_loop.simps)

section \<open>Orders that should be invalid\<close>

text \<open>
  C7, as stated, asks \<open>process_order\<close> to reject an order with a non-positive quantity or
  a non-positive price. It does not: a buy of 10 at the price -5 rests in the empty book
  and is reported RESTING, and a buy of quantity 0 is reported FILLED.
\<close>

theorem invalid_orders_accepted:
  "\<not> isl (process_new_order (mk_Order 2 ''buy'' (- 5) 10 0) world_init)
   \<and> fst (projr (process_new_order (mk_Order 2 ''buy'' (- 5) 10 0) world_init)) = ''RESTING''
   \<and> best_price (bids (engine (snd (projr
         (process_new_order (mk_Order 2 ''buy'' (- 5) 10 0) world_init))))) = Some (- 5)
   \<and> \<not> isl (process_new_order (mk_Order 1 ''buy'' 100 0 0) world_init)
   \<and> fst (projr (process_new_order (mk_Order 1 ''buy'' 100 0 0) world_init)) = ''FILLED''"
  by (simp add: eval_defs match_loop.simps)

text \<open>
  C7, amended. \<open>process_order\<close> has no invalid-order result: whenever it returns, it
  returns RESTING or FILLED. An order without open quantity (so every order of
  non-positive quantity that has no fills) is neither matched nor rested: the call
  returns FILLED and the engine is as before. The price is never examined for its sign:
  a buy with open quantity, whatever its price, rests when no ask is in the book.
\<close>

theorem process_order_no_validation:
  "(open_qty ord \<le> 0 \<longrightarrow> process_new_order ord w = Inr (''FILLED'', snd (new_Order ord w)))
   \<and> (\<forall>res w'. process_new_order ord w = Inr (res, w') \<longrightarrow> res = ''RESTING'' \<or> res = ''FILLED'')
   \<and> (0 < open_qty ord \<and> side ord = ''buy'' \<and> price_heap (asks (engine w)) = [] \<longrightarrow>
        process_new_order ord w =
          Inr (''RESTING'',
               (snd (new_Order ord w))\<lparr>engine := (engine w)\<lparr>bids :=
                   side_add ((store w)(next_ref w := ord)) (next_ref w) (bids (engine w))\<rparr>\<rparr>))"
proof (intro conjI impI allI)
  assume "open_qty ord \<le> 0"
  then show "process_new_order ord w = Inr (''FILLED'', snd (new_Order ord w))"
    by (simp add: process_new_order_def new_Order_def process_order_def match_loop.simps
        match_step_def opposing_book_def my_book_def Let_def)
next
  fix res w'
  assume "process_new_order ord w = Inr (res, w')"
  then show "res = ''RESTING'' \<or> res = ''FILLED''"
    by (auto simp: process_new_order_def new_Order_def process_order_def Let_def
        split: sum.splits if_splits prod.splits)
next
  assume "0 < open_qty ord \<and> side ord = ''buy'' \<and> price_heap (asks (engine w)) = []"
  then show "process_new_order ord w =
          Inr (''RESTING'',
               (snd (new_Order ord w))\<lparr>engine := (engine w)\<lparr>bids :=
                   side_add ((store w)(next_ref w := ord)) (next_ref w) (bids (engine w))\<rparr>\<rparr>)"
    by (simp add: process_new_order_def new_Order_def process_order_def match_loop.simps
        match_step_def best_price_def opposing_book_def my_book_def Let_def)
qed

theorem process_order_no_validation_witness:
  "process_new_order (mk_Order 1 ''buy'' 100 0 0) world_init
     = Inr (''FILLED'', snd (new_Order (mk_Order 1 ''buy'' 100 0 0) world_init))
   \<and> process_new_order (mk_Order 2 ''buy'' (- 5) 10 0) world_init
     = Inr (''RESTING'',
          (snd (new_Order (mk_Order 2 ''buy'' (- 5) 10 0) world_init))\<lparr>engine := (engine world_init)\<lparr>bids :=
             side_add ((store world_init)(next_ref world_init := mk_Order 2 ''buy'' (- 5) 10 0))
               (next_ref world_init) (bids (engine world_init))\<rparr>\<rparr>)"
  using process_order_no_validation [of "mk_Order 1 ''buy'' 100 0 0" world_init]
        process_order_no_validation [of "mk_Order 2 ''buy'' (- 5) 10 0" world_init]
  by (simp add: mk_Order_def open_qty_def world_init_def MatchingEngine_init_def
      OrderBookSide_init_def)

section \<open>Dropped orders\<close>

lemma sim_next_latency_ms_never_drops:
  "fst (sim_next_latency_ms rnd ls) \<ge> 0.1
   \<and> fst (sim_next_latency_ms rnd (ls\<lparr>sim_config := (sim_config ls)\<lparr>packet_loss_rate := p\<rparr>\<rparr>))
       = fst (sim_next_latency_ms rnd ls)"
  by (cases "gauss rnd (mean_latency_ms (sim_config ls)) (std_dev_latency_ms (sim_config ls)) (random ls)")
     (simp add: sim_next_latency_ms_def max_def)

text \<open>
  C8. With drop probability 1.0 a strategy-issued order is to produce no ORDER_ARRIVAL
  event and never to reach the engine. The runner never looks at the dropped result of
  the latency simulator of network.py. In any pass that handles a market event on which
  the strategy issues an order, whatever the generator (its uniform draws are below 1),
  \<open>_handle_market_event\<close> turns the -1.0 into -1000 microseconds and pushes the
  ORDER_ARRIVAL event 1000 microseconds before the clock; a later pass of the same run
  pops that event and hands the order to \<open>process_order\<close>. The latency simulator of
  simulation.py itself never reads the packet loss rate and never returns a dropped
  result (\<open>sim_next_latency_ms_never_drops\<close>).
\<close>

theorem drop_signal_ignored:
  assumes "drop_probability (config (latency R)) = 1"
    and "fst (rng_random np (rng (latency R))) < 1"
    and "heapq_heappop (events R) = Inr (sim_event, rest)"
    and "payload sim_event = MARKET market_event"
    and "on_update (strategy R) (sim_apply_market_event (sim_engine R) market_event) = (Some ord, s')"
  shows "\<exists>R' R1 rest1.
           run_step (next_latency_ms np) on_update R = Some (Inr R')
           \<and> \<lparr>se_timestamp = se_timestamp sim_event - 1000, payload = ORDER_ARRIVAL ord\<rparr>
               \<in> set (events R')
           \<and> run_reaches (next_latency_ms np) on_update R' R1
           \<and> heapq_heappop (events R1)
               = Inr (\<lparr>se_timestamp = se_timestamp sim_event - 1000, payload = ORDER_ARRIVAL ord\<rparr>, rest1)
           \<and> run_step (next_latency_ms np) on_update R1
               = Some (Inr (handle_order_arrival ord
                              (R1\<lparr>events := rest1, current_time := se_timestamp sim_event - 1000\<rparr>)))
           \<and> sim_engine (handle_order_arrival ord
                            (R1\<lparr>events := rest1, current_time := se_timestamp sim_event - 1000\<rparr>))
               = fst (snd (sim_process_order ord (sim_engine R1)))"
proof -
  let ?arrival = "\<lparr>se_timestamp = se_timestamp sim_event - 1000, payload = ORDER_ARRIVAL ord\<rparr>"
  from assms(3) have ne: "events R \<noteq> []" by (auto simp: heapq_heappop_def)
  have l: "next_latency_ms np (latency R)
           = (- 1, (latency R)\<lparr>rng := snd (rng_random np (rng (latency R)))\<rparr>)"
    using assms(1,2) by (cases "rng_random np (rng (latency R))") (simp add: next_latency_ms_def)
  define R2 where "R2 = handle_market_event (next_latency_ms np) on_update market_event
                           (R\<lparr>events := rest, current_time := se_timestamp sim_event\<rparr>)"
  have e2: "events R2 = heapq_heappush rest ?arrival"
    using assms(5) l by (simp add: R2_def handle_market_event_def Let_def py_int_def)
  define R' where "R' = schedule_next_market_event R2"
  have s: "run_step (next_latency_ms np) on_update R = Some (Inr R')"
    using ne assms(3,4) by (simp add: run_step_def Let_def R'_def R2_def)
  have "?arrival \<in> set (events R2)" unfolding e2 by simp
  then have m: "?arrival \<in> set (events R')"
    by (auto simp: R'_def schedule_next_market_event_def split: list.splits)
  from event_is_popped [OF m] obtain R1 rest1 where
    r: "run_reaches (next_latency_ms np) on_update R' R1"
    and p: "heapq_heappop (events R1) = Inr (?arrival, rest1)" by blast
  from p have ne1: "events R1 \<noteq> []" by (auto simp: heapq_heappop_def)
  have s1: "run_step (next_latency_ms np) on_update R1
            = Some (Inr (handle_order_arrival ord
                           (R1\<lparr>events := rest1, current_time := se_timestamp sim_event - 1000\<rparr>)))"
    using ne1 p by (simp add: run_step_def Let_def)
  have "sim_engine (handle_order_arrival ord
                      (R1\<lparr>events := rest1, current_time := se_timestamp sim_event - 1000\<rparr>))
        = fst (snd (sim_process_order ord (sim_engine R1)))"
    by (simp add: handle_order_arrival_def Let_def split: prod.splits)
  with s m r p s1 show ?thesis by blast
qed

theorem drop_signal_ignored_witness:
  "drop_probability (config (latency lossy_runner)) = 1
   \<and> fst (rng_random fixed_rng (rng (latency lossy_runner))) < 1
   \<and> heapq_heappop (events lossy_runner)
       = Inr (\<lparr>se_timestamp = 1000, payload = MARKET (hd mock_events)\<rparr>, [])
   \<and> SimpleMarketMaker_on_market_update (strategy lossy_runner)
        (sim_apply_market_event (sim_engine lossy_runner) (hd mock_events)) = (Some order_999, True)
   \<and> (\<exists>R' R1 rest1.
         run_step (next_latency_ms fixed_rng) SimpleMarketMaker_on_market_update lossy_runner
           = Some (Inr R')
         \<and> \<lparr>se_timestamp = 0, payload = ORDER_ARRIVAL order_999\<rparr> \<in> set (events R')
         \<and> run_reaches (next_latency_ms fixed_rng) SimpleMarketMaker_on_market_update R' R1
         \<and> heapq_heappop (events R1)
             = Inr (\<lparr>se_timestamp = 0, payload = ORDER_ARRIVAL order_999\<rparr>, rest1)
         \<and> sim_engine (handle_order_arrival order_999 (R1\<lparr>events := rest1, current_time := 0\<rparr>))
             = fst (snd (sim_process_order order_999 (sim_engine R1))))
   \<and> map_sum id (\<lambda>R. (printed R, sim_orders (sim_engine R), dict_get (sim_bids (sim_engine R)) 100.05 0))
        (simulate_network fixed_rng always_drop 42 mock_events SimpleMarketMaker_on_market_update False)
      = Inr ([Start_line, Market_line 1000 ''ADD'' 100 99.95, Network_line (- 1) 0,
              Arrival_line 0, Engine_line 999 ''buy'' 10 100.05, Status_line ''ACCEPTED'',
              Market_line 1010 ''ADD'' 50 100.01, Market_line 1020 ''ADD'' 20 100,
              Market_line 1030 ''ADD'' 75 100.02, Market_line 1040 ''ADD'' 30 100.05,
              Market_line 1050 ''ADD'' 30 100.03],
             [(999, order_999)], 40)"
proof -
  have d: "drop_probability (config (latency lossy_runner)) = 1"
    by (simp add: lossy_runner_def sim_defs)
  have u: "fst (rng_random fixed_rng (rng (latency lossy_runner))) < 1"
    by (simp add: lossy_runner_def sim_defs)
  have p: "heapq_heappop (events lossy_runner)
           = Inr (\<lparr>se_timestamp = 1000, payload = MARKET (hd mock_events)\<rparr>, [])"
    by (simp add: lossy_runner_def sim_defs heapq_defs)
  have s: "SimpleMarketMaker_on_market_update (strategy lossy_runner)
             (sim_apply_market_event (sim_engine lossy_runner) (hd mock_events))
           = (Some order_999, True)"
    by (simp add: lossy_runner_def sim_defs heapq_defs)
  have r: "map_sum id (\<lambda>R. (printed R, sim_orders (sim_engine R), dict_get (sim_bids (sim_engine R)) 100.05 0))
        (simulate_network fixed_rng always_drop 42 mock_events SimpleMarketMaker_on_market_update False)
      = Inr ([Start_line, Market_line 1000 ''ADD'' 100 99.95, Network_line (- 1) 0,
              Arrival_line 0, Engine_line 999 ''buy'' 10 100.05, Status_line ''ACCEPTED'',
              Market_line 1010 ''ADD'' 50 100.01, Market_line 1020 ''ADD'' 20 100,
              Market_line 1030 ''ADD'' 75 100.02, Market_line 1040 ''ADD'' 30 100.05,
              Market_line 1050 ''ADD'' 30 100.03],
             [(999, order_999)], 40)"
    by (simp add: sim_defs heapq_defs run_loop.simps)
  have m: "payload \<lparr>se_timestamp = 1000, payload = MARKET (hd mock_events)\<rparr> = MARKET (hd mock_events)"
    by simp
  from drop_signal_ignored [of lossy_runner fixed_rng _ _ "hd mock_events"
         SimpleMarketMaker_on_market_update order_999 True, OF d u p m s] d u p s r
  show ?thesis by simp blast
qed


section \<open>The draws of the latency model\<close>

text \<open>
  C9. \<open>next_latency_ms\<close> first takes one uniform draw and compares it with the drop
  probability. When the draw is below it, the call returns the dropped result -1.0 and
  the generator has advanced by that one draw only. Otherwise the call takes one gamma
  draw with shape 2 and the configured jitter scale from the generator as the first draw
  left it, and returns the base latency plus that jitter; with a non-negative base
  latency and a non-negative jitter this result is not the dropped result.
\<close>

theorem next_latency_ms_draws:
  "(fst (rng_random np (rng ls)) < drop_probability (config ls) \<longrightarrow>
      next_latency_ms np ls = (- 1, ls\<lparr>rng := snd (rng_random np (rng ls))\<rparr>))
   \<and> (\<not> fst (rng_random np (rng ls)) < drop_probability (config ls) \<longrightarrow>
      next_latency_ms np ls =
        (base_latency_ms (config ls)
           + fst (rng_gamma np 2 (jitter_scale (config ls)) (snd (rng_random np (rng ls)))),
         ls\<lparr>rng := snd (rng_gamma np 2 (jitter_scale (config ls)) (snd (rng_random np (rng ls))))\<rparr>)
      \<and> (0 \<le> base_latency_ms (config ls)
           \<and> 0 \<le> fst (rng_gamma np 2 (jitter_scale (config ls)) (snd (rng_random np (rng ls))))
           \<longrightarrow> fst (next_latency_ms np ls) \<noteq> - 1))"
  by (auto simp: next_latency_ms_def Let_def split: prod.splits)

theorem next_latency_ms_draws_witness:
  "next_latency_ms fixed_rng (LatencySimulator_init fixed_rng always_drop 42)
     = (- 1, \<lparr>config = always_drop, rng = 1\<rparr>)
   \<and> next_latency_ms fixed_rng (LatencySimulator_init fixed_rng colo 42)
     = (7 / 10, \<lparr>config = colo, rng = 2\<rparr>)"
  using next_latency_ms_draws [of fixed_rng "LatencySimulator_init fixed_rng always_drop 42"]
        next_latency_ms_draws [of fixed_rng "LatencySimulator_init fixed_rng colo 42"]
  by (simp add: fixed_rng_def LatencySimulator_init_def always_drop_def colo_def)

section \<open>Cancels\<close>

definition cancel_of_1 :: MarketEvent where
  "cancel_of_1 =
     \<lparr>me_timestamp = 1005, event_type = ''CANCEL'', me_side = ''sell'', me_price = 101,
      me_qty = 30, order_id = 1\<rparr>"

lemma side_add_last:
  "last (level (price_levels (side_add st r S)) (price (st r))) = r"
  by (simp add: side_add_def level_def Let_def)

text \<open>
  C10. A CANCEL event whose price has a non-empty queue on the side it names takes the
  cancel quantity off the total quantity of the last order of that queue, the one added
  most recently (\<open>side_add_last\<close>), when that order's open quantity is at least the cancel
  quantity, and changes nothing otherwise. The rest of the world, every other order
  included, is as before, and the event's order id plays no part.
\<close>

theorem cancel_hits_last_order:
  assumes "event_type ev = ''CANCEL''"
    and "price_levels (if me_side ev = ''buy'' then bids (engine w) else asks (engine w))
           (me_price ev) = Some q"
    and "q \<noteq> []"
  shows "apply_market_event ev w =
           Inr (if open_qty (store w (last q)) \<ge> me_qty ev
                then w\<lparr>store := (store w)(last q :=
                        (store w (last q))\<lparr>qty := qty (store w (last q)) - me_qty ev\<rparr>)\<rparr>
                else w)
         \<and> apply_market_event (ev\<lparr>order_id := i\<rparr>) w = apply_market_event ev w"
  using assms by (auto simp: apply_market_event_def Let_def)

theorem cancel_hits_last_order_witness:
  "event_type cancel_of_1 = ''CANCEL''
   \<and> price_levels (asks (engine two_sells)) 101 = Some [0, 1]
   \<and> oid (store two_sells 0) = 1 \<and> oid (store two_sells 1) = 2
   \<and> apply_market_event cancel_of_1 two_sells =
       Inr (two_sells\<lparr>store := (store two_sells)(1 := (store two_sells 1)\<lparr>qty := 20\<rparr>)\<rparr>)"
  using cancel_hits_last_order [of cancel_of_1 two_sells "[0, 1]" 1]
  by (simp add: cancel_of_1_def two_sells_level two_sells_store mk_Order_def open_qty_def)

end
